theory Spec2Isabelle
  imports Complex_Main "HOL-Library.Word"
begin

unbundle bit_operations_syntax

section \<open>RLE codec (PackBits variant)\<close>

type_synonym byte = "8 word"

subsection \<open>Encoder: \<open>compressRLE\<close>\<close>

text \<open>
  The inner loop \<open>while (i + runLen < data.length && runLen < 130 && data[i + runLen] === data[i]) runLen++\<close>.
\<close>

function scanRun :: "byte list \<Rightarrow> nat \<Rightarrow> nat \<Rightarrow> nat" where
  "scanRun data i runLen =
     (if i + runLen < length data \<and> runLen < 130 \<and> data ! (i + runLen) = data ! i
      then scanRun data i (runLen + 1)
      else runLen)"
  by pat_completeness auto
termination
  by (relation "measure (\<lambda>(data, i, runLen). 130 - runLen)") auto

declare scanRun.simps [simp del]

text \<open>
  The literal-length loop: it stops at 128 bytes, at the end of the data, or (the
  \<open>break\<close>) in front of three equal bytes.
\<close>

function scanLit :: "byte list \<Rightarrow> nat \<Rightarrow> nat \<Rightarrow> nat" where
  "scanLit data i litLen =
     (if i + litLen < length data \<and> litLen < 128 then
        (if i + litLen + 2 < length data \<and>
            data ! (i + litLen) = data ! (i + litLen + 1) \<and>
            data ! (i + litLen) = data ! (i + litLen + 2)
         then litLen
         else scanLit data i (litLen + 1))
      else litLen)"
  by pat_completeness auto
termination
  by (relation "measure (\<lambda>(data, i, litLen). 128 - litLen)") auto

declare scanLit.simps [simp del]

text \<open>
  The outer \<open>while (i < data.length)\<close> loop. \<open>output\<close> is the \<open>number[]\<close> the
  source pushes to; the \<open>else\<close> branch with \<open>litLen = 0\<close> is the source's safety
  \<open>break\<close>.
\<close>

function compressRLE_loop :: "byte list \<Rightarrow> nat \<Rightarrow> nat list \<Rightarrow> nat list" where
  "compressRLE_loop data i output =
     (if i < length data then
        (let runLen = scanRun data i 1 in
         if runLen \<ge> 3 then
           compressRLE_loop data (i + runLen)
             (output @ [128 + (runLen - 3), unat (data ! i)])
         else
           (let litLen = scanLit data i 0 in
            if litLen > 0 then
              compressRLE_loop data (i + litLen)
                (output @ [litLen - 1] @ map (\<lambda>k. unat (data ! (i + k))) [0..<litLen])
            else output))
      else output)"
  by pat_completeness auto
termination
  by (relation "measure (\<lambda>(data, i, output). length data - i)") auto

declare compressRLE_loop.simps [simp del]

text \<open>\<open>new Uint8Array(output)\<close> stores every number modulo 256.\<close>

definition compressRLE :: "byte list \<Rightarrow> byte list" where
  "compressRLE data = map of_nat (compressRLE_loop data 0 [])"

subsection \<open>Decoder: the emitted C routine \<open>unpack\<close>\<close>

text \<open>
  \<open>generateHeaderFile\<close> emits the decoder as C text. Its indices \<open>bufIdx\<close>,
  \<open>valIdx\<close> and the parameter \<open>bufferLen\<close> are \<open>uint16_t\<close>; \<open>header\<close>,
  \<open>count\<close>, \<open>value\<close> and the loop counter \<open>k\<close> are \<open>uint8_t\<close>. Word
  arithmetic wraps as the C types do. The state of the routine is
  \<open>(bufIdx, valIdx, buffer)\<close>. A read of \<open>val\<close> or a write of \<open>buffer\<close> outside
  the array (undefined behaviour in C) is an error value.
\<close>

datatype unpack_error = ReadOutOfBounds | WriteOutOfBounds

type_synonym unpack_state = "16 word \<times> 16 word \<times> byte list"

function literal_loop ::
  "byte list \<Rightarrow> 16 word \<Rightarrow> 8 word \<Rightarrow> 8 word \<Rightarrow> unpack_state \<Rightarrow> unpack_error + unpack_state" where
  "literal_loop val bufferLen count k (bufIdx, valIdx, buffer) =
     (if k < count then
        (if bufIdx < bufferLen then
           (if \<not> unat valIdx < length val then Inl ReadOutOfBounds
            else if \<not> unat bufIdx < length buffer then Inl WriteOutOfBounds
            else literal_loop val bufferLen count (k + 1)
                   (bufIdx + 1, valIdx + 1, buffer[unat bufIdx := val ! unat valIdx]))
         else literal_loop val bufferLen count (k + 1) (bufIdx, valIdx, buffer))
      else Inr (bufIdx, valIdx, buffer))"
  by pat_completeness auto

lemma word_less_suc_unat: "(k :: 'a::len word) < c \<Longrightarrow> unat (k + 1) = unat k + 1"
  by unat_arith

termination literal_loop
  by (relation "measure (\<lambda>(val, bufferLen, count, k, s). unat count - unat k)")
     (simp_all add: word_less_suc_unat word_less_nat_alt)

declare literal_loop.simps [simp del]

function repeat_loop ::
  "16 word \<Rightarrow> 8 word \<Rightarrow> byte \<Rightarrow> 8 word \<Rightarrow> unpack_state \<Rightarrow> unpack_error + unpack_state" where
  "repeat_loop bufferLen count value k (bufIdx, valIdx, buffer) =
     (if k < count then
        (if bufIdx < bufferLen then
           (if \<not> unat bufIdx < length buffer then Inl WriteOutOfBounds
            else repeat_loop bufferLen count value (k + 1)
                   (bufIdx + 1, valIdx, buffer[unat bufIdx := value]))
         else repeat_loop bufferLen count value (k + 1) (bufIdx, valIdx, buffer))
      else Inr (bufIdx, valIdx, buffer))"
  by pat_completeness auto
termination
  by (relation "measure (\<lambda>(bufferLen, count, value, k, s). unat count - unat k)")
     (simp_all add: word_less_suc_unat word_less_nat_alt)

declare repeat_loop.simps [simp del]

lemma literal_loop_bufIdx:
  "literal_loop val bufferLen count k (bufIdx, valIdx, buffer) = Inr (bufIdx', valIdx', buffer') \<Longrightarrow>
   bufIdx \<le> bufferLen \<Longrightarrow>
   bufIdx \<le> bufIdx' \<and> bufIdx' \<le> bufferLen \<and> (k < count \<and> bufIdx < bufferLen \<longrightarrow> bufIdx < bufIdx')"
proof (induction "unat count - unat k" arbitrary: k bufIdx valIdx buffer)
  case 0
  then have "\<not> k < count" by (simp add: word_less_nat_alt)
  then show ?case using "0.prems" by (simp add: literal_loop.simps)
next
  case (Suc n)
  then have kc: "k < count" by (simp add: word_less_nat_alt)
  then have n: "n = unat count - unat (k + 1)"
    using Suc.hyps(2) by (simp add: word_less_suc_unat)
  show ?case
  proof (cases "bufIdx < bufferLen")
    case False
    then have "literal_loop val bufferLen count (k + 1) (bufIdx, valIdx, buffer) = Inr (bufIdx', valIdx', buffer')"
      using Suc.prems(1) kc by (simp add: literal_loop.simps)
    from Suc.hyps(1)[OF n this Suc.prems(2)] False show ?thesis by simp
  next
    case bl: True
    have ok: "unat valIdx < length val" "unat bufIdx < length buffer"
      using Suc.prems(1) kc bl by (auto simp: literal_loop.simps split: if_splits)
    then have rec: "literal_loop val bufferLen count (k + 1)
                 (bufIdx + 1, valIdx + 1, buffer[unat bufIdx := val ! unat valIdx]) = Inr (bufIdx', valIdx', buffer')"
      using Suc.prems(1) kc bl by (simp add: literal_loop.simps)
    have le: "bufIdx + 1 \<le> bufferLen" using bl by (rule inc_le)
    have lt: "bufIdx < bufIdx + 1" using bl by unat_arith
    from Suc.hyps(1)[OF n rec le] have "bufIdx + 1 \<le> bufIdx' \<and> bufIdx' \<le> bufferLen" by simp
    then show ?thesis using lt by auto
  qed
qed

lemma repeat_loop_bufIdx:
  "repeat_loop bufferLen count value k (bufIdx, valIdx, buffer) = Inr (bufIdx', valIdx', buffer') \<Longrightarrow>
   bufIdx \<le> bufferLen \<Longrightarrow>
   bufIdx \<le> bufIdx' \<and> bufIdx' \<le> bufferLen \<and> (k < count \<and> bufIdx < bufferLen \<longrightarrow> bufIdx < bufIdx')"
proof (induction "unat count - unat k" arbitrary: k bufIdx valIdx buffer)
  case 0
  then have "\<not> k < count" by (simp add: word_less_nat_alt)
  then show ?case using "0.prems" by (simp add: repeat_loop.simps)
next
  case (Suc n)
  then have kc: "k < count" by (simp add: word_less_nat_alt)
  then have n: "n = unat count - unat (k + 1)"
    using Suc.hyps(2) by (simp add: word_less_suc_unat)
  show ?case
  proof (cases "bufIdx < bufferLen")
    case False
    then have "repeat_loop bufferLen count value (k + 1) (bufIdx, valIdx, buffer) = Inr (bufIdx', valIdx', buffer')"
      using Suc.prems(1) kc by (simp add: repeat_loop.simps)
    from Suc.hyps(1)[OF n this Suc.prems(2)] False show ?thesis by simp
  next
    case bl: True
    have ok: "unat bufIdx < length buffer"
      using Suc.prems(1) kc bl by (auto simp: repeat_loop.simps split: if_splits)
    then have rec: "repeat_loop bufferLen count value (k + 1)
                 (bufIdx + 1, valIdx, buffer[unat bufIdx := value]) = Inr (bufIdx', valIdx', buffer')"
      using Suc.prems(1) kc bl by (simp add: repeat_loop.simps)
    have le: "bufIdx + 1 \<le> bufferLen" using bl by (rule inc_le)
    have lt: "bufIdx < bufIdx + 1" using bl by unat_arith
    from Suc.hyps(1)[OF n rec le] have "bufIdx + 1 \<le> bufIdx' \<and> bufIdx' \<le> bufferLen" by simp
    then show ?thesis using lt by auto
  qed
qed

lemma literal_count_unat: "(header :: 8 word) < 128 \<Longrightarrow> unat (header + 1) = unat header + 1"
  by (rule word_less_suc_unat)

lemma repeat_count_unat:
  "\<not> (header :: 8 word) < 128 \<Longrightarrow> unat ((header - 128) + 3) = unat header - 128 + 3"
  by (simp add: unat_word_ariths word_less_nat_alt unat_sub word_le_nat_alt not_less)

lemma literal_count_pos: "(header :: 8 word) < 128 \<Longrightarrow> 0 < header + 1"
  using literal_count_unat[of header] by (simp add: word_less_nat_alt)

lemma repeat_count_pos: "\<not> (header :: 8 word) < 128 \<Longrightarrow> 0 < (header - 128) + 3"
  using repeat_count_unat[of header] by (simp add: word_less_nat_alt)

function unpack_loop :: "byte list \<Rightarrow> 16 word \<Rightarrow> unpack_state \<Rightarrow> unpack_error + unpack_state" where
  "unpack_loop val bufferLen (bufIdx, valIdx, buffer) =
     (if bufIdx < bufferLen then
        (if \<not> unat valIdx < length val then Inl ReadOutOfBounds
         else
           (let header = val ! unat valIdx; valIdx1 = valIdx + 1 in
            if header < 128 then
              (let count = header + 1 in
               case literal_loop val bufferLen count 0 (bufIdx, valIdx1, buffer) of
                 Inl e \<Rightarrow> Inl e
               | Inr s \<Rightarrow> unpack_loop val bufferLen s)
            else
              (let count = (header - 128) + 3 in
               if \<not> unat valIdx1 < length val then Inl ReadOutOfBounds
               else
                 (let value = val ! unat valIdx1; valIdx2 = valIdx1 + 1 in
                  case repeat_loop bufferLen count value 0 (bufIdx, valIdx2, buffer) of
                    Inl e \<Rightarrow> Inl e
                  | Inr s \<Rightarrow> unpack_loop val bufferLen s))))
      else Inr (bufIdx, valIdx, buffer))"
  by pat_completeness auto
termination
proof (relation "measure (\<lambda>(val, bufferLen, bufIdx, valIdx, buffer). unat bufferLen - unat bufIdx)")
  show "wf (measure (\<lambda>(val, bufferLen, bufIdx, valIdx, buffer). unat bufferLen - unat bufIdx))"
    by simp
next
  fix val :: "byte list" and bufferLen bufIdx valIdx :: "16 word" and buffer :: "byte list"
    and header :: byte and valIdx1 :: "16 word" and count :: byte and s :: unpack_state
  assume a: "bufIdx < bufferLen" "header < 128" "count = header + 1"
    "literal_loop val bufferLen count 0 (bufIdx, valIdx1, buffer) = Inr s"
  obtain b' v' buf' where s: "s = (b', v', buf')" by (cases s)
  have "0 < count" using a(2,3) literal_count_pos by simp
  with literal_loop_bufIdx[OF a(4)[unfolded s]] a(1)
  have "bufIdx < b'" "b' \<le> bufferLen" by auto
  then show "((val, bufferLen, s), val, bufferLen, bufIdx, valIdx, buffer)
      \<in> measure (\<lambda>(val, bufferLen, bufIdx, valIdx, buffer). unat bufferLen - unat bufIdx)"
    using a(1) by (simp add: s word_less_nat_alt word_le_nat_alt)
next
  fix val :: "byte list" and bufferLen bufIdx valIdx :: "16 word" and buffer :: "byte list"
    and header :: byte and valIdx1 valIdx2 :: "16 word" and count v :: byte and s :: unpack_state
  assume a: "bufIdx < bufferLen" "\<not> header < 128" "count = header - 128 + 3"
    "repeat_loop bufferLen count v 0 (bufIdx, valIdx2, buffer) = Inr s"
  obtain b' v' buf' where s: "s = (b', v', buf')" by (cases s)
  have "0 < count" using a(2,3) repeat_count_pos by simp
  with repeat_loop_bufIdx[OF a(4)[unfolded s]] a(1)
  have "bufIdx < b'" "b' \<le> bufferLen" by auto
  then show "((val, bufferLen, s), val, bufferLen, bufIdx, valIdx, buffer)
      \<in> measure (\<lambda>(val, bufferLen, bufIdx, valIdx, buffer). unat bufferLen - unat bufIdx)"
    using a(1) by (simp add: s word_less_nat_alt word_le_nat_alt)
qed

declare unpack_loop.simps [simp del]

definition unpack :: "byte list \<Rightarrow> byte list \<Rightarrow> 16 word \<Rightarrow> unpack_error + byte list" where
  "unpack val buffer bufferLen =
     (case unpack_loop val bufferLen (0, 0, buffer) of
        Inl e \<Rightarrow> Inl e
      | Inr (bufIdx, valIdx, buffer') \<Rightarrow> Inr buffer')"

subsection \<open>Properties of the encoder scans\<close>

lemma scanRun_ge: "r \<le> scanRun data i r"
  by (induction data i r rule: scanRun.induct) (subst scanRun.simps, auto)

lemma scanRun_le: "r \<le> 130 \<Longrightarrow> scanRun data i r \<le> 130"
  by (induction data i r rule: scanRun.induct) (subst scanRun.simps, auto)

lemma scanRun_bound: "i + r \<le> length data \<Longrightarrow> i + scanRun data i r \<le> length data"
  by (induction data i r rule: scanRun.induct) (subst scanRun.simps, auto)

lemma scanRun_all_eq:
  "(\<forall>k<r. data ! (i + k) = data ! i) \<Longrightarrow> k < scanRun data i r \<Longrightarrow> data ! (i + k) = data ! i"
proof (induction data i r rule: scanRun.induct)
  case (1 data i runLen)
  show ?case
  proof (cases "i + runLen < length data \<and> runLen < 130 \<and> data ! (i + runLen) = data ! i")
    case True
    then have eq: "scanRun data i runLen = scanRun data i (runLen + 1)"
      by (subst scanRun.simps) simp
    have "\<forall>k<runLen + 1. data ! (i + k) = data ! i"
      using "1.prems"(1) True by (auto simp: less_Suc_eq)
    then show ?thesis using "1.IH" True "1.prems"(2) eq by simp
  next
    case False
    then have "scanRun data i runLen = runLen"
      by (subst scanRun.simps) auto
    then show ?thesis using "1.prems" by simp
  qed
qed

lemma scanRun_stop:
  "scanRun data i r \<ge> 130 \<or> i + scanRun data i r \<ge> length data
     \<or> data ! (i + scanRun data i r) \<noteq> data ! i"
  by (induction data i r rule: scanRun.induct) (subst (1 2 3) scanRun.simps, auto)

lemma scanLit_ge: "l \<le> scanLit data i l"
  by (induction data i l rule: scanLit.induct) (subst scanLit.simps, auto)

lemma scanLit_le: "l \<le> 128 \<Longrightarrow> scanLit data i l \<le> 128"
  by (induction data i l rule: scanLit.induct) (subst scanLit.simps, auto)

lemma scanLit_bound: "i + l \<le> length data \<Longrightarrow> i + scanLit data i l \<le> length data"
  by (induction data i l rule: scanLit.induct) (subst scanLit.simps, auto)

lemma scanLit_step:
  "i + l < length data \<Longrightarrow> l < 128 \<Longrightarrow>
   \<not> (i + l + 2 < length data \<and> data ! (i + l) = data ! (i + l + 1) \<and> data ! (i + l) = data ! (i + l + 2)) \<Longrightarrow>
   scanLit data i l = scanLit data i (l + 1)"
  by (subst scanLit.simps) auto


lemma scanRun_step:
  "i + r < length data \<Longrightarrow> r < 130 \<Longrightarrow> data ! (i + r) = data ! i \<Longrightarrow>
   scanRun data i r = scanRun data i (r + 1)"
  by (subst scanRun.simps) simp

lemma scanLit_covers_short_run:
  assumes i: "i < length data" and r: "scanRun data i 1 < 3"
  shows "scanRun data i 1 \<le> scanLit data i 0 \<and> 0 < scanLit data i 0"
proof -
  let ?r = "scanRun data i 1"
  have r1: "1 \<le> ?r" by (rule scanRun_ge)
  have rb: "i + ?r \<le> length data" using i by (intro scanRun_bound) simp
  have stop: "i + ?r \<ge> length data \<or> data ! (i + ?r) \<noteq> data ! i"
    using scanRun_stop[of data i 1] r by auto
  have eq: "\<And>k. k < ?r \<Longrightarrow> data ! (i + k) = data ! i"
    by (rule scanRun_all_eq[of 1 data i]) auto
  have no0: "\<not> (i + 0 + 2 < length data \<and> data ! (i + 0) = data ! (i + 0 + 1) \<and> data ! (i + 0) = data ! (i + 0 + 2))"
  proof
    assume t: "i + 0 + 2 < length data \<and> data ! (i + 0) = data ! (i + 0 + 1) \<and> data ! (i + 0) = data ! (i + 0 + 2)"
    then have "scanRun data i 1 = scanRun data i (1 + 1)"
      by (intro scanRun_step) auto
    also have "\<dots> = scanRun data i (1 + 1 + 1)"
      using t by (intro scanRun_step) auto
    finally have "3 \<le> ?r" using scanRun_ge[of "1 + 1 + 1" data i] by simp
    then show False using r by simp
  qed
  have s1: "scanLit data i 0 = scanLit data i (0 + 1)"
    using i no0 by (intro scanLit_step) auto
  then have pos: "0 < scanLit data i 0" using scanLit_ge[of "0 + 1" data i] by simp
  show ?thesis
  proof (cases "?r = 1")
    case True
    then show ?thesis using pos by simp
  next
    case False
    then have r2: "?r = 2" using r r1 by simp
    have d1: "data ! (i + 1) = data ! i" using eq[of 1] r2 by simp
    have i1: "i + 1 < length data" using rb r2 by simp
    have no1: "\<not> (i + 1 + 2 < length data \<and> data ! (i + 1) = data ! (i + 1 + 1) \<and> data ! (i + 1) = data ! (i + 1 + 2))"
      using stop r2 d1 by (auto simp: numeral_2_eq_2 numeral_3_eq_3)
    have "scanLit data i (0 + 1) = scanLit data i (0 + 1 + 1)"
      using i1 no1 by (intro scanLit_step) auto
    then have "2 \<le> scanLit data i 0"
      using s1 scanLit_ge[of "0 + 1 + 1" data i] by simp
    then show ?thesis using r2 by simp
  qed
qed

subsection \<open>The records the encoder emits\<close>





subsection \<open>Round trip through the emitted decoder\<close>

lemma byte_of_nat_unat: "(of_nat (unat (w :: 'a::len word)) :: 'a word) = w"
  by simp

lemma unat_of_nat_small16: "n < 65536 \<Longrightarrow> unat (of_nat n :: 16 word) = n"
  by (simp add: unat_of_nat)

lemma unat_of_nat_small8: "n < 256 \<Longrightarrow> unat (of_nat n :: 8 word) = n"
  by (simp add: unat_of_nat)

lemma unat_suc_le16: "unat ((v :: 16 word) + 1) \<le> unat v + 1"
  by (simp add: unat_word_ariths)

lemma unat_suc_eq16: "unat (v :: 16 word) + 1 < 65536 \<Longrightarrow> unat (v + 1) = unat v + 1"
  by (simp add: unat_word_ariths)

lemma compressRLE_loop_acc:
  "compressRLE_loop data i out = out @ compressRLE_loop data i []"
proof (induction "length data - i" arbitrary: i out rule: less_induct)
  case less
  show ?case
  proof (cases "i < length data")
    case False
    then show ?thesis by (subst (1 2) compressRLE_loop.simps) simp
  next
    case i: True
    let ?r = "scanRun data i 1"
    show ?thesis
    proof (cases "3 \<le> ?r")
      case True
      then have d: "length data - (i + ?r) < length data - i" using i by simp
      have "compressRLE_loop data i out =
            compressRLE_loop data (i + ?r) (out @ [128 + (?r - 3), unat (data ! i)])"
        using i True by (subst compressRLE_loop.simps) (simp add: Let_def)
      also have "\<dots> = (out @ [128 + (?r - 3), unat (data ! i)]) @ compressRLE_loop data (i + ?r) []"
        by (rule less[OF d])
      also have "\<dots> = out @ compressRLE_loop data (i + ?r) ([] @ [128 + (?r - 3), unat (data ! i)])"
        using less[OF d, of "[] @ [128 + (?r - 3), unat (data ! i)]"] by simp
      also have "compressRLE_loop data (i + ?r) ([] @ [128 + (?r - 3), unat (data ! i)]) =
            compressRLE_loop data i []"
        using i True by (subst (2) compressRLE_loop.simps) (simp add: Let_def)
      finally show ?thesis .
    next
      case False
      let ?l = "scanLit data i 0"
      let ?rec = "[?l - 1] @ map (\<lambda>k. unat (data ! (i + k))) [0..<?l]"
      show ?thesis
      proof (cases "0 < ?l")
        case l: True
        then have d: "length data - (i + ?l) < length data - i" using i by simp
        have "compressRLE_loop data i out = compressRLE_loop data (i + ?l) (out @ ?rec)"
          using i False l by (subst compressRLE_loop.simps) (simp add: Let_def)
        also have "\<dots> = (out @ ?rec) @ compressRLE_loop data (i + ?l) []"
          by (rule less[OF d])
        also have "\<dots> = out @ compressRLE_loop data (i + ?l) ([] @ ?rec)"
          using less[OF d, of "[] @ ?rec"] by simp
        also have "compressRLE_loop data (i + ?l) ([] @ ?rec) = compressRLE_loop data i []"
          using i False l by (subst (2) compressRLE_loop.simps) (simp add: Let_def)
        finally show ?thesis .
      next
        case False
        then show ?thesis using i \<open>\<not> 3 \<le> ?r\<close>
          by (subst (1 2) compressRLE_loop.simps) (simp add: Let_def)
      qed
    qed
  qed
qed

lemma compressRLE_loop_end: "\<not> i < length data \<Longrightarrow> compressRLE_loop data i [] = []"
  by (subst compressRLE_loop.simps) simp

lemma compressRLE_loop_run:
  "i < length data \<Longrightarrow> 3 \<le> scanRun data i 1 \<Longrightarrow>
   compressRLE_loop data i [] =
   [128 + (scanRun data i 1 - 3), unat (data ! i)] @ compressRLE_loop data (i + scanRun data i 1) []"
  by (subst compressRLE_loop.simps, subst compressRLE_loop_acc) (simp add: Let_def)

lemma compressRLE_loop_lit:
  "i < length data \<Longrightarrow> \<not> 3 \<le> scanRun data i 1 \<Longrightarrow>
   compressRLE_loop data i [] =
   ([scanLit data i 0 - 1] @ map (\<lambda>k. unat (data ! (i + k))) [0..<scanLit data i 0])
     @ compressRLE_loop data (i + scanLit data i 0) []"
  using scanLit_covers_short_run[of i data]
  by (subst compressRLE_loop.simps, subst compressRLE_loop_acc) (simp add: Let_def)


lemma take_suc_update:
  "b < length buffer \<Longrightarrow> length buffer = length data \<Longrightarrow> take b buffer = take b data \<Longrightarrow>
   take (Suc b) (buffer[b := data ! b]) = take (Suc b) data"
  by (simp add: take_Suc_conv_app_nth)

lemma literal_loop_copies:
  "n = unat count - unat k \<Longrightarrow>
   unat bufIdx + n \<le> unat bufferLen \<Longrightarrow>
   length buffer = length data \<Longrightarrow> unat bufferLen \<le> length data \<Longrightarrow>
   unat valIdx + n \<le> length val \<Longrightarrow> unat valIdx + n \<le> 65536 \<Longrightarrow>
   \<forall>j<n. val ! (unat valIdx + j) = data ! (unat bufIdx + j) \<Longrightarrow>
   take (unat bufIdx) buffer = take (unat bufIdx) data \<Longrightarrow>
   \<exists>buffer'. literal_loop val bufferLen count k (bufIdx, valIdx, buffer) =
        Inr (bufIdx + of_nat n, valIdx + of_nat n, buffer') \<and>
      length buffer' = length data \<and>
      take (unat bufIdx + n) buffer' = take (unat bufIdx + n) data"
proof (induction n arbitrary: k bufIdx valIdx buffer)
  case 0
  then have "\<not> k < count" by (simp add: word_less_nat_alt)
  then show ?case using 0 by (simp add: literal_loop.simps)
next
  case (Suc n)
  have kc: "k < count" using Suc.prems(1) by (simp add: word_less_nat_alt)
  have n: "n = unat count - unat (k + 1)"
    using Suc.prems(1) kc by (simp add: word_less_suc_unat)
  have bl: "bufIdx < bufferLen" using Suc.prems(2) by (simp add: word_less_nat_alt)
  have b1: "unat (bufIdx + 1) = unat bufIdx + 1" using bl by (rule word_less_suc_unat)
  have rd: "unat valIdx < length val" using Suc.prems(5) by simp
  have wr: "unat bufIdx < length buffer" using Suc.prems(2,3,4) by simp
  have v0: "val ! unat valIdx = data ! unat bufIdx" using Suc.prems(7)[rule_format, of 0] by simp
  have step: "literal_loop val bufferLen count k (bufIdx, valIdx, buffer) =
      literal_loop val bufferLen count (k + 1)
        (bufIdx + 1, valIdx + 1, buffer[unat bufIdx := data ! unat bufIdx])"
    using kc bl rd wr v0 by (subst literal_loop.simps) simp
  have vle: "unat (valIdx + 1) + n \<le> unat valIdx + Suc n"
    using unat_suc_le16[of valIdx] by simp
  have veq: "0 < n \<Longrightarrow> unat (valIdx + 1) = unat valIdx + 1"
    using Suc.prems(6) by (intro unat_suc_eq16) simp
  have cp: "\<forall>j<n. val ! (unat (valIdx + 1) + j) = data ! (unat (bufIdx + 1) + j)"
  proof (intro allI impI)
    fix j assume j: "j < n"
    then have "unat (valIdx + 1) = unat valIdx + 1" using veq by simp
    then show "val ! (unat (valIdx + 1) + j) = data ! (unat (bufIdx + 1) + j)"
      using Suc.prems(7)[rule_format, of "Suc j"] j b1 by simp
  qed
  have tk: "take (unat (bufIdx + 1)) (buffer[unat bufIdx := data ! unat bufIdx])
        = take (unat (bufIdx + 1)) data"
    using take_suc_update[OF wr Suc.prems(3) Suc.prems(8)] b1 by simp
  from Suc.IH[OF n _ _ Suc.prems(4) _ _ cp tk]
  obtain buffer' where r:
    "literal_loop val bufferLen count (k + 1)
        (bufIdx + 1, valIdx + 1, buffer[unat bufIdx := data ! unat bufIdx]) =
        Inr (bufIdx + 1 + of_nat n, valIdx + 1 + of_nat n, buffer')"
    "length buffer' = length data"
    "take (unat (bufIdx + 1) + n) buffer' = take (unat (bufIdx + 1) + n) data"
    using Suc.prems(2,3,5,6) b1 vle by auto
  show ?case using step r b1 by (simp add: ac_simps)
qed

lemma repeat_loop_fills:
  "n = unat count - unat k \<Longrightarrow>
   unat bufIdx + n \<le> unat bufferLen \<Longrightarrow>
   length buffer = length data \<Longrightarrow> unat bufferLen \<le> length data \<Longrightarrow>
   \<forall>j<n. data ! (unat bufIdx + j) = v \<Longrightarrow>
   take (unat bufIdx) buffer = take (unat bufIdx) data \<Longrightarrow>
   \<exists>buffer'. repeat_loop bufferLen count v k (bufIdx, valIdx, buffer) =
        Inr (bufIdx + of_nat n, valIdx, buffer') \<and>
      length buffer' = length data \<and>
      take (unat bufIdx + n) buffer' = take (unat bufIdx + n) data"
proof (induction n arbitrary: k bufIdx buffer)
  case 0
  then have "\<not> k < count" by (simp add: word_less_nat_alt)
  then show ?case using 0 by (simp add: repeat_loop.simps)
next
  case (Suc n)
  have kc: "k < count" using Suc.prems(1) by (simp add: word_less_nat_alt)
  have n: "n = unat count - unat (k + 1)"
    using Suc.prems(1) kc by (simp add: word_less_suc_unat)
  have bl: "bufIdx < bufferLen" using Suc.prems(2) by (simp add: word_less_nat_alt)
  have b1: "unat (bufIdx + 1) = unat bufIdx + 1" using bl by (rule word_less_suc_unat)
  have wr: "unat bufIdx < length buffer" using Suc.prems(2,3,4) by simp
  have v0: "v = data ! unat bufIdx" using Suc.prems(5)[rule_format, of 0] by simp
  have step: "repeat_loop bufferLen count v k (bufIdx, valIdx, buffer) =
      repeat_loop bufferLen count v (k + 1)
        (bufIdx + 1, valIdx, buffer[unat bufIdx := data ! unat bufIdx])"
    using kc bl wr v0 by (subst repeat_loop.simps) simp
  have cp: "\<forall>j<n. data ! (unat (bufIdx + 1) + j) = v"
    using Suc.prems(5) b1 by auto
  have tk: "take (unat (bufIdx + 1)) (buffer[unat bufIdx := data ! unat bufIdx])
        = take (unat (bufIdx + 1)) data"
    using take_suc_update[OF wr Suc.prems(3) Suc.prems(6)] b1 by simp
  from Suc.IH[OF n _ _ Suc.prems(4) cp tk]
  obtain buffer' where r:
    "repeat_loop bufferLen count v (k + 1)
        (bufIdx + 1, valIdx, buffer[unat bufIdx := data ! unat bufIdx]) =
        Inr (bufIdx + 1 + of_nat n, valIdx, buffer')"
    "length buffer' = length data"
    "take (unat (bufIdx + 1) + n) buffer' = take (unat (bufIdx + 1) + n) data"
    using Suc.prems(2,3) b1 by auto
  show ?case using step r b1 by (simp add: ac_simps)
qed


lemma unpack_loop_done:
  "\<not> bufIdx < bufferLen \<Longrightarrow>
   unpack_loop val bufferLen (bufIdx, valIdx, buffer) = Inr (bufIdx, valIdx, buffer)"
  by (subst unpack_loop.simps) simp

lemma unpack_loop_literal_step:
  "bufIdx < bufferLen \<Longrightarrow> unat valIdx < length val \<Longrightarrow> val ! unat valIdx < 128 \<Longrightarrow>
   literal_loop val bufferLen (val ! unat valIdx + 1) 0 (bufIdx, valIdx + 1, buffer) = Inr s \<Longrightarrow>
   unpack_loop val bufferLen (bufIdx, valIdx, buffer) = unpack_loop val bufferLen s"
  by (subst unpack_loop.simps) (simp add: Let_def)

lemma unpack_loop_repeat_step:
  "bufIdx < bufferLen \<Longrightarrow> unat valIdx < length val \<Longrightarrow> \<not> val ! unat valIdx < 128 \<Longrightarrow>
   unat (valIdx + 1) < length val \<Longrightarrow>
   repeat_loop bufferLen (val ! unat valIdx - 128 + 3) (val ! unat (valIdx + 1)) 0
     (bufIdx, valIdx + 1 + 1, buffer) = Inr s \<Longrightarrow>
   unpack_loop val bufferLen (bufIdx, valIdx, buffer) = unpack_loop val bufferLen s"
  by (subst unpack_loop.simps) (simp add: Let_def)

lemma unpack_loop_roundtrip:
  "length data < 65536 \<Longrightarrow>
   length (pre @ compressRLE_loop data i []) \<le> 65536 \<Longrightarrow>
   i \<le> length data \<Longrightarrow> length buffer = length data \<Longrightarrow> take i buffer = take i data \<Longrightarrow>
   \<exists>valIdx'. unpack_loop (map of_nat (pre @ compressRLE_loop data i [])) (of_nat (length data))
        (of_nat i, of_nat (length pre), buffer) = Inr (of_nat (length data), valIdx', data)"
proof (induction "length data - i" arbitrary: i pre buffer rule: less_induct)
  case less
  let ?bl = "of_nat (length data) :: 16 word"
  let ?val = "map of_nat (pre @ compressRLE_loop data i []) :: byte list"
  have ubl: "unat ?bl = length data" using less.prems(1) by (rule unat_of_nat_small16)
  have ui: "unat (of_nat i :: 16 word) = i"
    using less.prems(1,3) by (intro unat_of_nat_small16) simp
  show ?case
  proof (cases "i < length data")
    case False
    then have e: "i = length data" using less.prems(3) by simp
    then have "buffer = data" using less.prems(4,5) by simp
    then show ?thesis using e by (simp add: unpack_loop_done)
  next
    case i: True
    have bl: "(of_nat i :: 16 word) < ?bl" using i ui ubl by (simp add: word_less_nat_alt)
    let ?r = "scanRun data i 1"
    have r130: "?r \<le> 130" by (rule scanRun_le) simp
    have rb: "i + ?r \<le> length data" using i by (intro scanRun_bound) simp
    show ?thesis
    proof (cases "3 \<le> ?r")
      case r3: True
      let ?h = "128 + (?r - 3)" and ?d = "unat (data ! i)"
      let ?rest = "compressRLE_loop data (i + ?r) []"
      have enc: "compressRLE_loop data i [] = [?h, ?d] @ ?rest"
        using i r3 by (rule compressRLE_loop_run)
      have plen: "length pre + 2 \<le> 65536" using less.prems(2) enc by simp
      have uv: "unat (of_nat (length pre) :: 16 word) = length pre"
        using plen by (intro unat_of_nat_small16) simp
      have uv1: "unat (of_nat (length pre) + 1 :: 16 word) = length pre + 1"
        using plen uv by (subst unat_suc_eq16) simp_all
      have rd: "unat (of_nat (length pre) :: 16 word) < length ?val"
        "unat (of_nat (length pre) + 1 :: 16 word) < length ?val"
        using uv uv1 enc by simp_all
      have hdr: "?val ! unat (of_nat (length pre) :: 16 word) = of_nat ?h"
        unfolding uv enc by (simp add: nth_append)
      have vl: "?val ! unat (of_nat (length pre) + 1 :: 16 word) = data ! i"
        unfolding uv1 enc by (simp add: nth_append)
      have uh: "unat (of_nat ?h :: byte) = ?h"
        using r130 r3 by (intro unat_of_nat_small8) simp
      have h128: "\<not> (of_nat ?h :: byte) < 128"
        using uh by (simp add: word_less_nat_alt)
      have cnt: "unat ((of_nat ?h :: byte) - 128 + 3) = ?r"
        using repeat_count_unat[OF h128] uh r3 by simp
      have eqs: "\<forall>j<?r. data ! (unat (of_nat i :: 16 word) + j) = data ! i"
        using scanRun_all_eq[of 1 data i] ui by auto
      from repeat_loop_fills[of ?r "of_nat ?h - 128 + 3" 0 "of_nat i" ?bl buffer data "data ! i"
          "of_nat (length pre) + 1 + 1"]
      obtain buffer' where f:
        "repeat_loop ?bl (of_nat ?h - 128 + 3) (data ! i) 0
           (of_nat i, of_nat (length pre) + 1 + 1, buffer) =
         Inr (of_nat i + of_nat ?r, of_nat (length pre) + 1 + 1, buffer')"
        "length buffer' = length data"
        "take (i + ?r) buffer' = take (i + ?r) data"
        using cnt ui ubl rb less.prems(4,5) eqs by auto
      have step: "unpack_loop ?val ?bl (of_nat i, of_nat (length pre), buffer) =
          unpack_loop ?val ?bl (of_nat i + of_nat ?r, of_nat (length pre) + 1 + 1, buffer')"
        using bl rd(1) h128 rd(2) f(1) unfolding hdr[symmetric] vl[symmetric]
        by (rule unpack_loop_repeat_step)
      have d: "length data - (i + ?r) < length data - i" using i r3 by simp
      have vlen': "length ((pre @ [?h, ?d]) @ ?rest) \<le> 65536"
        using less.prems(2) enc by simp
      from less.hyps[OF d less.prems(1) vlen' rb f(2) f(3)]
      obtain valIdx' where
        "unpack_loop (map of_nat ((pre @ [?h, ?d]) @ ?rest)) ?bl
           (of_nat (i + ?r), of_nat (length (pre @ [?h, ?d])), buffer') = Inr (?bl, valIdx', data)"
        by blast
      then have "unpack_loop ?val ?bl (of_nat i + of_nat ?r, of_nat (length pre) + 1 + 1, buffer')
          = Inr (?bl, valIdx', data)"
        unfolding enc by (simp add: ac_simps)
      then show ?thesis using step by auto
    next
      case r3: False
      let ?l = "scanLit data i 0"
      let ?lits = "map (\<lambda>k. unat (data ! (i + k))) [0..<?l]"
      let ?rest = "compressRLE_loop data (i + ?l) []"
      have lpos: "0 < ?l" using scanLit_covers_short_run[OF i] r3 by simp
      have l128: "?l \<le> 128" by (rule scanLit_le) simp
      have lb: "i + ?l \<le> length data" using i by (intro scanLit_bound) simp
      have enc: "compressRLE_loop data i [] = ([?l - 1] @ ?lits) @ ?rest"
        using i r3 by (rule compressRLE_loop_lit)
      have plen: "length pre + 1 + ?l \<le> 65536" using less.prems(2) enc by simp
      have uv: "unat (of_nat (length pre) :: 16 word) = length pre"
        using plen by (intro unat_of_nat_small16) simp
      have uv1: "unat (of_nat (length pre) + 1 :: 16 word) = length pre + 1"
        using plen uv lpos by (subst unat_suc_eq16) simp_all
      have rd: "unat (of_nat (length pre) :: 16 word) < length ?val"
        using uv enc by simp
      have hdr: "?val ! unat (of_nat (length pre) :: 16 word) = of_nat (?l - 1)"
        unfolding uv enc by (simp add: nth_append)
      have uh: "unat (of_nat (?l - 1) :: byte) = ?l - 1"
        using l128 by (intro unat_of_nat_small8) simp
      have h128: "(of_nat (?l - 1) :: byte) < 128"
        using uh l128 lpos by (simp add: word_less_nat_alt)
      have cnt: "unat ((of_nat (?l - 1) :: byte) + 1) = ?l"
        using literal_count_unat[OF h128] uh lpos by simp
      have cp: "\<forall>j<?l. ?val ! (unat (of_nat (length pre) + 1 :: 16 word) + j)
                  = data ! (unat (of_nat i :: 16 word) + j)"
        unfolding uv1 ui enc by (simp add: nth_append)
      from literal_loop_copies[of ?l "of_nat (?l - 1) + 1" 0 "of_nat i" ?bl buffer data
          "of_nat (length pre) + 1" ?val]
      obtain buffer' where f:
        "literal_loop ?val ?bl (of_nat (?l - 1) + 1) 0
           (of_nat i, of_nat (length pre) + 1, buffer) =
         Inr (of_nat i + of_nat ?l, of_nat (length pre) + 1 + of_nat ?l, buffer')"
        "length buffer' = length data"
        "take (i + ?l) buffer' = take (i + ?l) data"
        using cnt ui ubl lb less.prems(4,5) cp uv1 plen enc by auto
      have step: "unpack_loop ?val ?bl (of_nat i, of_nat (length pre), buffer) =
          unpack_loop ?val ?bl (of_nat i + of_nat ?l, of_nat (length pre) + 1 + of_nat ?l, buffer')"
        using bl rd h128 f(1) unfolding hdr[symmetric]
        by (rule unpack_loop_literal_step)
      have d: "length data - (i + ?l) < length data - i" using i lpos by simp
      have vlen': "length ((pre @ [?l - 1] @ ?lits) @ ?rest) \<le> 65536"
        using less.prems(2) enc by simp
      from less.hyps[OF d less.prems(1) vlen' lb f(2) f(3)]
      obtain valIdx' where
        "unpack_loop (map of_nat ((pre @ [?l - 1] @ ?lits) @ ?rest)) ?bl
           (of_nat (i + ?l), of_nat (length (pre @ [?l - 1] @ ?lits)), buffer') = Inr (?bl, valIdx', data)"
        by blast
      then have "unpack_loop ?val ?bl (of_nat i + of_nat ?l, of_nat (length pre) + 1 + of_nat ?l, buffer')
          = Inr (?bl, valIdx', data)"
        unfolding enc by (simp add: ac_simps)
      then show ?thesis using step by auto
    qed
  qed
qed


text \<open>
  Claim C1 (amended). For every byte sequence \<open>data\<close> of fewer than 65536 bytes whose
  encoding has at most 65536 bytes, and every output buffer of \<open>data.length\<close> bytes,
  the emitted decoder, called with \<open>bufferLen = data.length\<close> on the encoder's output,
  returns without reading or writing out of bounds and leaves exactly \<open>data\<close> in the
  buffer. The two bounds are those of the decoder's \<open>uint16_t\<close> indices.
\<close>

theorem unpack_compressRLE_roundtrip:
  assumes "length data < 65536" and "length (compressRLE data) \<le> 65536"
    and "length buffer = length data"
  shows "unpack (compressRLE data) buffer (of_nat (length data)) = Inr data"
proof -
  have "length ([] @ compressRLE_loop data 0 []) \<le> 65536"
    using assms(2) by (simp add: compressRLE_def)
  from unpack_loop_roundtrip[OF assms(1) this _ assms(3), of ]
  obtain valIdx' where
    "unpack_loop (map of_nat ([] @ compressRLE_loop data 0 [])) (of_nat (length data))
        (of_nat 0, of_nat (length ([] :: nat list)), buffer) = Inr (of_nat (length data), valIdx', data)"
    by auto
  then show ?thesis by (simp add: unpack_def compressRLE_def)
qed

theorem unpack_compressRLE_roundtrip_witness:
  "unpack (compressRLE [5, 5, 5, 5, 5, 9, 9, 1, 2, 3]) (replicate 10 0) 10 =
     Inr [5, 5, 5, 5, 5, 9, 9, 1, 2, 3]"
proof -
  have e: "compressRLE [5, 5, 5, 5, 5, 9, 9, 1, 2, 3] = [130, 5, 4, 9, 9, 1, 2, 3]"
    by code_simp
  show ?thesis
    using unpack_compressRLE_roundtrip[of "[5, 5, 5, 5, 5, 9, 9, 1, 2, 3]" "replicate 10 0"]
    by (simp add: e)
qed

text \<open>
  The claim as stated, for every byte sequence, fails on 65536 bytes: the declared length
  65536 arrives in the \<open>uint16_t\<close> parameter \<open>bufferLen\<close> as 0, the loop body never
  runs and the buffer keeps its previous content.
\<close>

theorem unpack_truncated_length_counterexample:
  "unpack (compressRLE (replicate 65536 0)) (replicate 65536 1)
      (of_nat (length (replicate 65536 (0 :: byte)))) \<noteq> Inr (replicate 65536 0)"
proof -
  have z: "(of_nat (length (replicate 65536 (0 :: byte))) :: 16 word) = 0"
    by simp
  have "unpack (compressRLE (replicate 65536 0)) (replicate 65536 1) 0 = Inr (replicate 65536 1)"
    by (simp add: unpack_def unpack_loop_done)
  then show ?thesis unfolding z by simp
qed


section \<open>Frame processing: \<open>processFrame\<close>\<close>

subsection \<open>Data\<close>

text \<open>
  The DOM \<open>ImageData\<close>: RGBA bytes (\<open>Uint8ClampedArray\<close>), width and height.
\<close>

record ImageData =
  img_data :: "byte list"
  img_width :: nat
  img_height :: nat

datatype Fit = Stretch | Cover | Contain

text \<open>
  \<open>ProcessingOptions\<close>; \<open>processFrame\<close> destructures it into the locals \<open>width\<close>,
  \<open>height\<close>, \<open>threshold\<close>, \<open>invert\<close>, \<open>dither\<close>, \<open>fit\<close>. \<open>threshold\<close> is a
  JavaScript number, of the type \<open>'n\<close> of numbers below.
\<close>

record 'n ProcessingOptions =
  opt_width :: nat
  opt_height :: nat
  opt_threshold :: 'n
  opt_invert :: bool
  opt_dither :: bool
  opt_fit :: Fit

text \<open>
  JavaScript numbers are IEEE doubles, and \<open>grayBuffer\<close> is a \<open>Float32Array\<close>. The
  model is parametric in the arithmetic: \<open>'n\<close> is the type of numbers and an
  \<open>'n arith\<close> gives the operations the source uses. \<open>n_num q\<close> is the number written as
  the literal or integer \<open>q\<close>, \<open>n_floor\<close> is \<open>Math.floor\<close> (of a finite number),
  \<open>n_fround\<close> is the rounding of a store into a \<open>Float32Array\<close>. Every theorem holds
  for every such arithmetic, rounded or exact.
\<close>

record 'n arith =
  n_num :: "rat \<Rightarrow> 'n"
  n_add :: "'n \<Rightarrow> 'n \<Rightarrow> 'n"
  n_sub :: "'n \<Rightarrow> 'n \<Rightarrow> 'n"
  n_mul :: "'n \<Rightarrow> 'n \<Rightarrow> 'n"
  n_div :: "'n \<Rightarrow> 'n \<Rightarrow> 'n"
  n_lt :: "'n \<Rightarrow> 'n \<Rightarrow> bool"
  n_max :: "'n \<Rightarrow> 'n \<Rightarrow> 'n"
  n_min :: "'n \<Rightarrow> 'n \<Rightarrow> 'n"
  n_floor :: "'n \<Rightarrow> int"
  n_fround :: "'n \<Rightarrow> 'n"

text \<open>The arithmetic without rounding, on rationals; used to run the model.\<close>

definition exact_arith :: "rat arith" where
  "exact_arith = \<lparr> n_num = (\<lambda>q. q), n_add = (+), n_sub = (-), n_mul = (*), n_div = (/),
     n_lt = (<), n_max = max, n_min = min, n_floor = floor, n_fround = (\<lambda>q. q) \<rparr>"

datatype js_error = IndexSizeError

text \<open>
  \<open>new ImageData(data, width, height)\<close> throws when a dimension is zero or the length of
  \<open>data\<close> is not \<open>4 * width * height\<close>.
\<close>

definition new_ImageData :: "byte list \<Rightarrow> nat \<Rightarrow> nat \<Rightarrow> js_error + ImageData" where
  "new_ImageData d w h =
     (if w = 0 \<or> h = 0 \<or> length d \<noteq> 4 * w * h then Inl IndexSizeError
      else Inr \<lparr> img_data = d, img_width = w, img_height = h \<rparr>)"

text \<open>
  A read of a typed array as a number. Out of range it yields \<open>undefined\<close>, which a
  \<open>Uint8ClampedArray\<close> stores as 0.
\<close>

definition rd :: "byte list \<Rightarrow> nat \<Rightarrow> nat" where
  "rd xs i = (if i < length xs then unat (xs ! i) else 0)"

text \<open>A store into a \<open>Uint8ClampedArray\<close> of a non-negative integer.\<close>

definition clamp8 :: "nat \<Rightarrow> byte" where
  "clamp8 v = of_nat (min v 255)"

subsection \<open>Resampling\<close>

text \<open>Scale and offsets by fit mode: \<open>(scaleX, scaleY, offsetX, offsetY)\<close>.\<close>

definition fitParams :: "'n arith \<Rightarrow> Fit \<Rightarrow> nat \<Rightarrow> nat \<Rightarrow> nat \<Rightarrow> nat \<Rightarrow> 'n \<times> 'n \<times> 'n \<times> 'n" where
  "fitParams ar fit width height sw sh =
     (let scaleX = n_div ar (n_num ar (of_nat width)) (n_num ar (of_nat sw));
          scaleY = n_div ar (n_num ar (of_nat height)) (n_num ar (of_nat sh))
      in if fit = Cover then
           (let scale = n_max ar scaleX scaleY in
            (scale, scale,
             n_div ar (n_sub ar (n_num ar (of_nat width)) (n_mul ar (n_num ar (of_nat sw)) scale)) (n_num ar 2),
             n_div ar (n_sub ar (n_num ar (of_nat height)) (n_mul ar (n_num ar (of_nat sh)) scale)) (n_num ar 2)))
         else if fit = Contain then
           (let scale = n_min ar scaleX scaleY in
            (scale, scale,
             n_div ar (n_sub ar (n_num ar (of_nat width)) (n_mul ar (n_num ar (of_nat sw)) scale)) (n_num ar 2),
             n_div ar (n_sub ar (n_num ar (of_nat height)) (n_mul ar (n_num ar (of_nat sh)) scale)) (n_num ar 2)))
         else (scaleX, scaleY, n_num ar 0, n_num ar 0))"

text \<open>The texel \<open>(r, g, b, a)\<close> the sampling loop computes for the target pixel \<open>(x, y)\<close>.\<close>

definition sampleTexel ::
  "'n arith \<Rightarrow> byte list \<Rightarrow> nat \<Rightarrow> nat \<Rightarrow> 'n \<times> 'n \<times> 'n \<times> 'n \<Rightarrow> nat \<Rightarrow> nat \<Rightarrow> nat \<times> nat \<times> nat \<times> nat" where
  "sampleTexel ar sourceData sw sh p x y =
     (case p of (scaleX, scaleY, offsetX, offsetY) \<Rightarrow>
      (let srcX = n_floor ar (n_div ar (n_sub ar (n_num ar (of_nat x)) offsetX) scaleX);
           srcY = n_floor ar (n_div ar (n_sub ar (n_num ar (of_nat y)) offsetY) scaleY)
       in if srcX \<ge> 0 \<and> srcX < int sw \<and> srcY \<ge> 0 \<and> srcY < int sh then
            (let srcIdx = (nat srcY * sw + nat srcX) * 4 in
             (rd sourceData srcIdx, rd sourceData (srcIdx + 1),
              rd sourceData (srcIdx + 2), rd sourceData (srcIdx + 3)))
          else (0, 0, 0, 255)))"

text \<open>The body of the sampling loop: the four stores at \<open>targetIdx\<close>.\<close>

definition samplePixel ::
  "'n arith \<Rightarrow> byte list \<Rightarrow> nat \<Rightarrow> nat \<Rightarrow> nat \<Rightarrow> 'n \<times> 'n \<times> 'n \<times> 'n \<Rightarrow> nat \<Rightarrow> nat \<Rightarrow> byte list \<Rightarrow> byte list" where
  "samplePixel ar sourceData sw sh width p x y targetData =
     (case sampleTexel ar sourceData sw sh p x y of (r, g, b, a) \<Rightarrow>
      (let targetIdx = (y * width + x) * 4 in
       targetData[targetIdx := clamp8 r, targetIdx + 1 := clamp8 g,
                  targetIdx + 2 := clamp8 b, targetIdx + 3 := clamp8 a]))"

text \<open>\<open>for (y = 0; y < height; y++) for (x = 0; x < width; x++)\<close>.\<close>

definition sampleLoop ::
  "'n arith \<Rightarrow> byte list \<Rightarrow> nat \<Rightarrow> nat \<Rightarrow> nat \<Rightarrow> nat \<Rightarrow> 'n \<times> 'n \<times> 'n \<times> 'n \<Rightarrow> byte list \<Rightarrow> byte list" where
  "sampleLoop ar sourceData sw sh width height p targetData =
     fold (\<lambda>y. fold (\<lambda>x. samplePixel ar sourceData sw sh width p x y) [0..<width])
       [0..<height] targetData"


subsection \<open>Quantizing and packing\<close>

text \<open>\<open>0.299 * r + 0.587 * g + 0.114 * b\<close>.\<close>

definition luminance :: "'n arith \<Rightarrow> nat \<Rightarrow> nat \<Rightarrow> nat \<Rightarrow> 'n" where
  "luminance ar r g b =
     n_add ar
       (n_add ar (n_mul ar (n_num ar (299 / 1000)) (n_num ar (of_nat r)))
                 (n_mul ar (n_num ar (587 / 1000)) (n_num ar (of_nat g))))
       (n_mul ar (n_num ar (114 / 1000)) (n_num ar (of_nat b)))"

text \<open>Step 1, \<open>for (i = 0; i < width * height; i++) grayBuffer[i] = ...\<close>.\<close>

definition grayscaleLoop :: "'n arith \<Rightarrow> nat \<Rightarrow> nat \<Rightarrow> byte list \<Rightarrow> 'n list \<Rightarrow> 'n list" where
  "grayscaleLoop ar width height targetData grayBuffer =
     fold (\<lambda>i gb.
        (let r = rd targetData (i * 4);
             g = rd targetData (i * 4 + 1);
             b = rd targetData (i * 4 + 2)
         in gb[i := n_fround ar (luminance ar r g b)]))
       [0..<width * height] grayBuffer"

text \<open>\<open>for (i = 0; i < width * height; i++) grayBuffer[i] = 255 - grayBuffer[i]\<close>.\<close>

definition invertLoop :: "'n arith \<Rightarrow> nat \<Rightarrow> nat \<Rightarrow> 'n list \<Rightarrow> 'n list" where
  "invertLoop ar width height grayBuffer =
     fold (\<lambda>i gb. gb[i := n_fround ar (n_sub ar (n_num ar 255) (gb ! i))])
       [0..<width * height] grayBuffer"

text \<open>
  The block both modes share: \<open>page\<close>, \<open>bit\<close>, \<open>byteIdx\<close>, the bounds check and
  \<open>ssd1306Buffer[byteIdx] |= (1 << bit)\<close>.
\<close>

definition setPixelBit :: "nat \<Rightarrow> nat \<Rightarrow> nat \<Rightarrow> byte list \<Rightarrow> byte list" where
  "setPixelBit width x y ssd1306Buffer =
     (let page = y div 8;
          bit' = y mod 8;
          byteIdx = page * width + x
      in if byteIdx < length ssd1306Buffer
         then ssd1306Buffer[byteIdx := (ssd1306Buffer ! byteIdx) OR (push_bit bit' 1)]
         else ssd1306Buffer)"

text \<open>
  The stores both modes perform for a pixel once its value \<open>newVal\<close> is known: four
  bytes of the preview, and the bit when \<open>newVal > 128\<close>.
\<close>

definition writePixel ::
  "nat \<Rightarrow> nat \<Rightarrow> nat \<Rightarrow> nat \<Rightarrow> byte list \<times> byte list \<Rightarrow> byte list \<times> byte list" where
  "writePixel width x y newVal s =
     (case s of (targetData, ssd1306Buffer) \<Rightarrow>
      (let idx = y * width + x in
       (targetData[idx * 4 := clamp8 newVal, idx * 4 + 1 := clamp8 newVal,
                   idx * 4 + 2 := clamp8 newVal, idx * 4 + 3 := clamp8 255],
        if newVal > 128 then setPixelBit width x y ssd1306Buffer else ssd1306Buffer)))"

text \<open>\<open>grayBuffer[j] += quantError * (k / 16)\<close>.\<close>

definition diffuse :: "'n arith \<Rightarrow> 'n list \<Rightarrow> nat \<Rightarrow> 'n \<Rightarrow> nat \<Rightarrow> 'n list" where
  "diffuse ar grayBuffer j quantError k =
     grayBuffer[j := n_fround ar (n_add ar (grayBuffer ! j)
        (n_mul ar quantError (n_div ar (n_num ar (of_nat k)) (n_num ar 16))))]"

text \<open>The body of the Floyd-Steinberg loop at \<open>(x, y)\<close>.\<close>

definition ditherPixel ::
  "'n arith \<Rightarrow> nat \<Rightarrow> nat \<Rightarrow> 'n \<Rightarrow> nat \<Rightarrow> nat \<Rightarrow>
   'n list \<times> byte list \<times> byte list \<Rightarrow> 'n list \<times> byte list \<times> byte list" where
  "ditherPixel ar width height threshold x y s =
     (case s of (grayBuffer, out) \<Rightarrow>
      (let idx = y * width + x;
           oldVal = grayBuffer ! idx;
           newVal = (if n_lt ar oldVal threshold then 0 else 255);
           quantError = n_sub ar oldVal (n_num ar (of_nat newVal));
           gb1 = (if x + 1 < width
                  then diffuse ar grayBuffer (y * width + (x + 1)) quantError 7
                  else grayBuffer);
           gb2 = (if y + 1 < height then
                    (let g1 = (if x > 0
                               then diffuse ar gb1 ((y + 1) * width + (x - 1)) quantError 3
                               else gb1);
                         g2 = diffuse ar g1 ((y + 1) * width + x) quantError 5
                     in if x + 1 < width
                        then diffuse ar g2 ((y + 1) * width + (x + 1)) quantError 1
                        else g2)
                  else gb1)
       in (gb2, writePixel width x y newVal out)))"

definition ditherLoop ::
  "'n arith \<Rightarrow> nat \<Rightarrow> nat \<Rightarrow> 'n \<Rightarrow>
   'n list \<times> byte list \<times> byte list \<Rightarrow> 'n list \<times> byte list \<times> byte list" where
  "ditherLoop ar width height threshold s =
     fold (\<lambda>y. fold (\<lambda>x. ditherPixel ar width height threshold x y) [0..<width])
       [0..<height] s"

text \<open>The body of the plain threshold loop at \<open>(x, y)\<close>.\<close>

definition thresholdPixel ::
  "'n arith \<Rightarrow> nat \<Rightarrow> 'n \<Rightarrow> bool \<Rightarrow> 'n list \<Rightarrow> nat \<Rightarrow> nat \<Rightarrow>
   byte list \<times> byte list \<Rightarrow> byte list \<times> byte list" where
  "thresholdPixel ar width threshold invert grayBuffer x y out =
     (let idx = y * width + x;
          oldPixel = grayBuffer ! idx;
          newPixel = (if n_lt ar oldPixel threshold then 0 else 255);
          newPixel = (if invert then 255 - newPixel else newPixel)
      in writePixel width x y newPixel out)"

definition thresholdLoop ::
  "'n arith \<Rightarrow> nat \<Rightarrow> nat \<Rightarrow> 'n \<Rightarrow> bool \<Rightarrow> 'n list \<Rightarrow>
   byte list \<times> byte list \<Rightarrow> byte list \<times> byte list" where
  "thresholdLoop ar width height threshold invert grayBuffer out =
     fold (\<lambda>y. fold (\<lambda>x. thresholdPixel ar width threshold invert grayBuffer x y) [0..<width])
       [0..<height] out"

text \<open>
  Step 2 in dithering mode, from the \<open>if (invert)\<close> to the end of the loop;
  \<open>ssd1306Buffer.fill(0)\<close> comes first.
\<close>

definition ditherMode ::
  "'n arith \<Rightarrow> nat \<Rightarrow> nat \<Rightarrow> 'n \<Rightarrow> bool \<Rightarrow> 'n list \<Rightarrow>
   byte list \<times> byte list \<Rightarrow> byte list \<times> byte list" where
  "ditherMode ar width height threshold invert grayBuffer out =
     (case out of (targetData, ssd1306Buffer) \<Rightarrow>
      (let grayBuffer = (if invert then invertLoop ar width height grayBuffer else grayBuffer);
           ssd1306Buffer = map (\<lambda>_. 0) ssd1306Buffer
       in snd (ditherLoop ar width height threshold (grayBuffer, targetData, ssd1306Buffer))))"

subsection \<open>\<open>processFrame\<close>\<close>

record ProcessResult =
  pixels :: "byte list"
  preview :: ImageData

text \<open>
  The first half of \<open>processFrame\<close>: \<open>targetData\<close> after the sampling loop.
\<close>

definition resample :: "'n arith \<Rightarrow> ImageData \<Rightarrow> nat \<Rightarrow> nat \<Rightarrow> Fit \<Rightarrow> byte list" where
  "resample ar frameImageData width height fit =
     (let targetData = replicate (width * height * 4) 0;
          sourceData = img_data frameImageData;
          sw = img_width frameImageData;
          sh = img_height frameImageData
      in sampleLoop ar sourceData sw sh width height
           (fitParams ar fit width height sw sh) targetData)"

text \<open>
  The second half: from the allocation of the buffers to the end of step 2, giving
  \<open>(targetData, ssd1306Buffer)\<close>. \<open>new Uint8Array(n)\<close> truncates a fractional \<open>n\<close>
  (\<open>ToIndex\<close>), so \<open>ssd1306Buffer\<close> has \<open>(width * height) div 8\<close> bytes; \<open>monoPixels\<close>,
  with \<open>Math.ceil\<close>, is allocated and never used.
\<close>

definition quantize ::
  "'n arith \<Rightarrow> nat \<Rightarrow> nat \<Rightarrow> 'n \<Rightarrow> bool \<Rightarrow> bool \<Rightarrow> byte list \<Rightarrow> byte list \<times> byte list" where
  "quantize ar width height threshold invert dither targetData =
     (let monoPixels = replicate ((width * height + 7) div 8) (0 :: byte);
          ssd1306Buffer = replicate ((width * height) div 8) (0 :: byte);
          grayBuffer = grayscaleLoop ar width height targetData
                         (replicate (width * height) (n_num ar 0))
      in if dither
         then ditherMode ar width height threshold invert grayBuffer (targetData, ssd1306Buffer)
         else thresholdLoop ar width height threshold invert grayBuffer (targetData, ssd1306Buffer))"

definition processFrame :: "'n arith \<Rightarrow> ImageData \<Rightarrow> 'n ProcessingOptions \<Rightarrow> js_error + ProcessResult" where
  "processFrame ar frameImageData options =
     (let width = opt_width options; height = opt_height options;
          threshold = opt_threshold options; invert = opt_invert options;
          dither = opt_dither options; fit = opt_fit options;
          targetData = resample ar frameImageData width height fit
      in case quantize ar width height threshold invert dither targetData of
           (targetData, ssd1306Buffer) \<Rightarrow>
             (case new_ImageData targetData width height of
                Inl e \<Rightarrow> Inl e
              | Inr im \<Rightarrow> Inr \<lparr> pixels = ssd1306Buffer, preview = im \<rparr>))"


subsection \<open>Loops over \<open>[0..<n]\<close>\<close>

lemma fold_upt_invariant:
  assumes "P 0 s" and "\<And>i t. i < n \<Longrightarrow> P i t \<Longrightarrow> P (Suc i) (f i t)"
  shows "P n (fold f [0..<n] s)"
  using assms(2)
proof (induction n)
  case 0
  then show ?case using assms(1) by simp
next
  case (Suc n)
  have "P n (fold f [0..<n] s)" using Suc.prems by (intro Suc.IH) simp
  then show ?case using Suc.prems[of n] by simp
qed

lemma nested_fold_flat:
  "fold (\<lambda>y. fold (\<lambda>x. f x y) [0..<w]) [0..<h] s =
   fold (\<lambda>i. f (i mod w) (i div w)) [0..<h * w] s"
proof (induction h)
  case 0
  then show ?case by simp
next
  case (Suc h)
  have a: "Suc h * w = h * w + w" by simp
  have b: "[0..<h * w + w] = [0..<h * w] @ [h * w..<h * w + w]"
    by (rule upt_add_eq_append) simp
  have c: "[h * w..<h * w + w] = map (\<lambda>x. x + h * w) [0..<w]"
    unfolding map_add_upt by (simp only: add.commute)
  have d: "fold (\<lambda>i. f (i mod w) (i div w)) (map (\<lambda>x. x + h * w) [0..<w]) t =
        fold (\<lambda>x. f x h) [0..<w] t" for t
    unfolding fold_map by (rule fold_cong) (auto simp: comp_def)
  have "fold (\<lambda>i. f (i mod w) (i div w)) [0..<Suc h * w] s =
        fold (\<lambda>x. f x h) [0..<w] (fold (\<lambda>i. f (i mod w) (i div w)) [0..<h * w] s)"
    unfolding a b c fold_append comp_def d ..
  then show ?case using Suc.IH by simp
qed


lemma fold_preserves:
  "(\<And>x t. P t \<Longrightarrow> P (f x t)) \<Longrightarrow> P s \<Longrightarrow> P (fold f xs s)"
  by (induction xs arbitrary: s) auto

subsection \<open>Sizes of the buffers\<close>

lemma length_samplePixel [simp]:
  "length (samplePixel ar sourceData sw sh width p x y targetData) = length targetData"
  by (simp add: samplePixel_def Let_def split: prod.split)

lemma length_sampleLoop [simp]:
  "length (sampleLoop ar sourceData sw sh width height p targetData) = length targetData"
  unfolding sampleLoop_def
  by (rule fold_preserves, rule fold_preserves) simp_all

lemma length_resample [simp]:
  "length (resample ar frameImageData width height fit) = width * height * 4"
  by (simp add: resample_def Let_def)

lemma length_setPixelBit [simp]: "length (setPixelBit width x y ssd) = length ssd"
  by (simp add: setPixelBit_def Let_def)

lemma length_writePixel [simp]:
  "length (fst (writePixel width x y newVal out)) = length (fst out)"
  "length (snd (writePixel width x y newVal out)) = length (snd out)"
  by (simp_all add: writePixel_def Let_def split: prod.split)

lemma length_ditherPixel [simp]:
  "length (fst (snd (ditherPixel ar width height threshold x y s))) = length (fst (snd s))"
  "length (snd (snd (ditherPixel ar width height threshold x y s))) = length (snd (snd s))"
  by (simp_all add: ditherPixel_def Let_def split: prod.split)

lemma length_ditherLoop:
  "length (fst (snd (ditherLoop ar width height threshold s))) = length (fst (snd s)) \<and>
   length (snd (snd (ditherLoop ar width height threshold s))) = length (snd (snd s))"
  unfolding ditherLoop_def
  by (rule fold_preserves[where P = "\<lambda>t. length (fst (snd t)) = length (fst (snd s)) \<and>
        length (snd (snd t)) = length (snd (snd s))"], rule fold_preserves) simp_all

lemma length_thresholdPixel [simp]:
  "length (fst (thresholdPixel ar width threshold invert grayBuffer x y out)) = length (fst out)"
  "length (snd (thresholdPixel ar width threshold invert grayBuffer x y out)) = length (snd out)"
  by (simp_all add: thresholdPixel_def Let_def)

lemma length_thresholdLoop:
  "length (fst (thresholdLoop ar width height threshold invert grayBuffer out)) = length (fst out) \<and>
   length (snd (thresholdLoop ar width height threshold invert grayBuffer out)) = length (snd out)"
  unfolding thresholdLoop_def
  by (rule fold_preserves[where P = "\<lambda>t. length (fst t) = length (fst out) \<and>
        length (snd t) = length (snd out)"], rule fold_preserves) simp_all

lemma length_quantize:
  "length (fst (quantize ar width height threshold invert dither targetData)) = length targetData"
  "length (snd (quantize ar width height threshold invert dither targetData)) = (width * height) div 8"
  using length_ditherLoop[of ar width height threshold]
    length_thresholdLoop[of ar width height threshold invert]
  by (simp_all add: quantize_def ditherMode_def Let_def)

lemma processFrame_result:
  assumes "0 < opt_width options" "0 < opt_height options"
  shows "processFrame ar frameImageData options =
     Inr \<lparr> pixels = snd (quantize ar (opt_width options) (opt_height options)
                (opt_threshold options) (opt_invert options) (opt_dither options)
                (resample ar frameImageData (opt_width options) (opt_height options) (opt_fit options))),
           preview = \<lparr> img_data = fst (quantize ar (opt_width options) (opt_height options)
                (opt_threshold options) (opt_invert options) (opt_dither options)
                (resample ar frameImageData (opt_width options) (opt_height options) (opt_fit options))),
             img_width = opt_width options, img_height = opt_height options \<rparr> \<rparr>"
proof -
  let ?q = "quantize ar (opt_width options) (opt_height options)
                (opt_threshold options) (opt_invert options) (opt_dither options)
                (resample ar frameImageData (opt_width options) (opt_height options) (opt_fit options))"
  have l: "length (fst ?q) = 4 * opt_width options * opt_height options"
    by (simp add: length_quantize)
  show ?thesis
    using assms l by (simp add: processFrame_def Let_def new_ImageData_def case_prod_unfold)
qed


subsection \<open>The packed layout\<close>

lemma clamp8_values [simp]: "unat (clamp8 0) = 0" "unat (clamp8 255) = 255"
  by (simp_all add: clamp8_def)

lemma writePixel_fst_nth:
  "i * 4 < length (fst out) \<Longrightarrow>
   fst (writePixel width x y newVal out) ! (i * 4) =
     (if i = y * width + x then clamp8 newVal else fst out ! (i * 4))"
  by (auto simp: writePixel_def Let_def nth_list_update split: prod.split)

lemma setPixelBit_bit:
  "b < length ssd \<Longrightarrow> k < 8 \<Longrightarrow>
   bit (setPixelBit width x y ssd ! b) k \<longleftrightarrow>
     bit (ssd ! b) k \<or> (b = (y div 8) * width + x \<and> k = y mod 8)"
  by (auto simp: setPixelBit_def Let_def nth_list_update bit_or_iff bit_exp_iff possible_bit_word)

lemma pixel_slot_inj:
  assumes w: "0 < (w :: nat)"
    and b: "((i div w) div 8) * w + i mod w = ((n div w) div 8) * w + n mod w"
    and k: "(i div w) mod 8 = (n div w) mod 8"
  shows "i = n"
proof -
  have "(((i div w) div 8) * w + i mod w) mod w = i mod w" using w by simp
  moreover have "(((n div w) div 8) * w + n mod w) mod w = n mod w" using w by simp
  ultimately have m: "i mod w = n mod w" using b by simp
  have "(((i div w) div 8) * w + i mod w) div w = (i div w) div 8" using w by simp
  moreover have "(((n div w) div 8) * w + n mod w) div w = (n div w) div 8" using w by simp
  ultimately have "(i div w) div 8 = (n div w) div 8" using b by simp
  then have "i div w = n div w" using k by (metis div_mult_mod_eq)
  then show ?thesis using m by (metis div_mult_mod_eq)
qed

definition packed_upto :: "nat \<Rightarrow> nat \<Rightarrow> nat \<Rightarrow> byte list \<times> byte list \<Rightarrow> bool" where
  "packed_upto w h n out \<longleftrightarrow>
     length (fst out) = w * h * 4 \<and>
     (\<forall>i<w * h. ((i div w) div 8) * w + i mod w < length (snd out) \<longrightarrow>
        (bit (snd out ! (((i div w) div 8) * w + i mod w)) ((i div w) mod 8)
           \<longleftrightarrow> i < n \<and> 128 < unat (fst out ! (i * 4))))"

lemma packed_upto_init:
  "length targetData = w * h * 4 \<Longrightarrow> packed_upto w h 0 (targetData, replicate l 0)"
  by (simp add: packed_upto_def)

lemma packed_upto_step:
  assumes w: "0 < w" and n: "n < w * h" and v: "newVal = 0 \<or> newVal = 255"
    and p: "packed_upto w h n out"
  shows "packed_upto w h (Suc n) (writePixel w (n mod w) (n div w) newVal out)"
proof -
  obtain td ssd where out: "out = (td, ssd)" by (cases out)
  let ?out' = "writePixel w (n mod w) (n div w) newVal out"
  have len: "length td = w * h * 4" using p by (simp add: packed_upto_def out)
  have nn: "(n div w) * w + n mod w = n" by simp
  have td': "\<And>i. i < w * h \<Longrightarrow>
      fst ?out' ! (i * 4) = (if i = n then clamp8 newVal else td ! (i * 4))"
    using writePixel_fst_nth[of _ out w "n mod w" "n div w" newVal] len nn
    by (simp add: out)
  have lit: "128 < unat (clamp8 newVal) \<longleftrightarrow> 128 < newVal" using v by auto
  have "((i div w) div 8) * w + i mod w < length (snd ?out') \<longrightarrow>
        (bit (snd ?out' ! (((i div w) div 8) * w + i mod w)) ((i div w) mod 8)
           \<longleftrightarrow> i < Suc n \<and> 128 < unat (fst ?out' ! (i * 4)))" if i: "i < w * h" for i
  proof
    assume b: "((i div w) div 8) * w + i mod w < length (snd ?out')"
    then have b': "((i div w) div 8) * w + i mod w < length ssd" by (simp add: out)
    have ih: "bit (ssd ! (((i div w) div 8) * w + i mod w)) ((i div w) mod 8)
           \<longleftrightarrow> i < n \<and> 128 < unat (td ! (i * 4))"
      using p i b' by (simp add: packed_upto_def out)
    show "bit (snd ?out' ! (((i div w) div 8) * w + i mod w)) ((i div w) mod 8)
           \<longleftrightarrow> i < Suc n \<and> 128 < unat (fst ?out' ! (i * 4))"
    proof (cases "128 < newVal")
      case False
      then have "snd ?out' = ssd" by (simp add: writePixel_def out Let_def)
      then show ?thesis using ih td'[OF i] lit False by (auto simp: less_Suc_eq)
    next
      case True
      then have s: "snd ?out' = setPixelBit w (n mod w) (n div w) ssd"
        by (simp add: writePixel_def out Let_def)
      have "bit (snd ?out' ! (((i div w) div 8) * w + i mod w)) ((i div w) mod 8) \<longleftrightarrow>
            bit (ssd ! (((i div w) div 8) * w + i mod w)) ((i div w) mod 8) \<or>
            (((i div w) div 8) * w + i mod w = ((n div w) div 8) * w + n mod w \<and>
             (i div w) mod 8 = (n div w) mod 8)"
        unfolding s by (rule setPixelBit_bit[OF b']) simp
      also have "\<dots> \<longleftrightarrow> (i < n \<and> 128 < unat (td ! (i * 4))) \<or> i = n"
        using ih pixel_slot_inj[OF w, of i n] by auto
      also have "\<dots> \<longleftrightarrow> i < Suc n \<and> 128 < unat (fst ?out' ! (i * 4))"
        using td'[OF i] lit True by (auto simp: less_Suc_eq)
      finally show ?thesis .
    qed
  qed
  moreover have "length (fst ?out') = w * h * 4" using len by (simp add: out)
  ultimately show ?thesis by (simp add: packed_upto_def)
qed


subsection \<open>What the sampling loop stores\<close>

definition texelBytes :: "nat \<times> nat \<times> nat \<times> nat \<Rightarrow> byte list" where
  "texelBytes t = (case t of (r, g, b, a) \<Rightarrow> [clamp8 r, clamp8 g, clamp8 b, clamp8 a])"

lemma nth_update4:
  assumes "j * 4 + 3 < length xs" "c < 4"
  shows "xs[j * 4 := a0, j * 4 + 1 := a1, j * 4 + 2 := a2, j * 4 + 3 := a3] ! (i * 4 + c) =
     (if i = j then [a0, a1, a2, a3] ! c else xs ! (i * 4 + c))"
proof (cases "i = j")
  case True
  have c: "c = 0 \<or> c = 1 \<or> c = 2 \<or> c = 3" using assms(2) by auto
  from c show ?thesis using assms(1) True
    by (elim disjE) (simp_all add: nth_list_update)
next
  case False
  then have "i * 4 + c \<noteq> j * 4" "i * 4 + c \<noteq> j * 4 + 1" "i * 4 + c \<noteq> j * 4 + 2"
    "i * 4 + c \<noteq> j * 4 + 3"
    using assms(2) by arith+
  then show ?thesis using False by simp
qed

lemma samplePixel_nth:
  assumes "(y * width + x) * 4 + 3 < length targetData" "c < 4"
  shows "samplePixel ar sourceData sw sh width p x y targetData ! (i * 4 + c) =
     (if i = y * width + x then texelBytes (sampleTexel ar sourceData sw sh p x y) ! c
      else targetData ! (i * 4 + c))"
proof -
  obtain r g b a where t: "sampleTexel ar sourceData sw sh p x y = (r, g, b, a)"
    by (cases "sampleTexel ar sourceData sw sh p x y")
  show ?thesis
    unfolding samplePixel_def t texelBytes_def Let_def prod.case
    by (rule nth_update4[OF assms])
qed

lemma sampleLoop_nth:
  assumes w: "0 < width" and len: "length targetData = width * height * 4"
    and i: "i < width * height" and c: "c < 4"
  shows "sampleLoop ar sourceData sw sh width height p targetData ! (i * 4 + c) =
     texelBytes (sampleTexel ar sourceData sw sh p (i mod width) (i div width)) ! c"
proof -
  let ?f = "\<lambda>i. samplePixel ar sourceData sw sh width p (i mod width) (i div width)"
  let ?T = "\<lambda>i. texelBytes (sampleTexel ar sourceData sw sh p (i mod width) (i div width))"
  let ?P = "\<lambda>n td. length td = width * height * 4 \<and>
     (\<forall>i<n. \<forall>c<4. td ! (i * 4 + c) = ?T i ! c)"
  have "?P (height * width) (fold ?f [0..<height * width] targetData)"
  proof (rule fold_upt_invariant[where P = ?P])
    show "?P 0 targetData" using len by simp
  next
    fix n td assume n: "n < height * width" and p: "?P n td"
    have nn: "(n div width) * width + n mod width = n" by simp
    have r: "(n div width * width + n mod width) * 4 + 3 < length td"
      using n p unfolding nn by (simp add: mult.commute)
    have e: "?f n td ! (i * 4 + c) = (if i = n then ?T n ! c else td ! (i * 4 + c))"
      if "c < 4" for i c
      using samplePixel_nth[OF r that, of ar sourceData sw sh p i] unfolding nn .
    have "?f n td ! (i * 4 + c) = ?T i ! c" if "i < Suc n" "c < 4" for i c
    proof (cases "i = n")
      case True
      then show ?thesis using e[OF that(2), of i] by simp
    next
      case False
      then have "i < n" using that(1) by simp
      then show ?thesis using e[OF that(2), of i] False p that(2) by simp
    qed
    moreover have "length (?f n td) = width * height * 4" using p by simp
    ultimately show "?P (Suc n) (?f n td)" by blast
  qed
  then have "fold ?f [0..<height * width] targetData ! (i * 4 + c) = ?T i ! c"
    using i c by (simp add: mult.commute)
  then show ?thesis by (simp add: sampleLoop_def nested_fold_flat)
qed

lemma resample_nth:
  assumes "x < width" "y < height" "c < 4"
  shows "resample ar frameImageData width height fit ! ((y * width + x) * 4 + c) =
     texelBytes (sampleTexel ar (img_data frameImageData) (img_width frameImageData)
       (img_height frameImageData)
       (fitParams ar fit width height (img_width frameImageData) (img_height frameImageData))
       x y) ! c"
proof -
  have w: "0 < width" using assms(1) by simp
  have "y * width + x < (y + 1) * width" using assms(1) by simp
  also have "\<dots> \<le> height * width" using assms(2) by (intro mult_le_mono1) simp
  finally have i: "y * width + x < width * height" by (simp add: mult.commute)
  have m: "(y * width + x) mod width = x" "(y * width + x) div width = y"
    using assms(1) by simp_all
  show ?thesis
    using sampleLoop_nth[OF w _ i assms(3), of "replicate (width * height * 4) 0"]
    unfolding m by (simp add: resample_def Let_def)
qed


subsection \<open>What the quantizing loops store\<close>

lemma grayscaleLoop_nth:
  assumes len: "length grayBuffer = width * height" and i: "i < width * height"
  shows "grayscaleLoop ar width height targetData grayBuffer ! i =
     n_fround ar (luminance ar (rd targetData (i * 4)) (rd targetData (i * 4 + 1))
       (rd targetData (i * 4 + 2)))"
    and "length (grayscaleLoop ar width height targetData grayBuffer) = width * height"
proof -
  let ?G = "\<lambda>i. n_fround ar (luminance ar (rd targetData (i * 4)) (rd targetData (i * 4 + 1))
       (rd targetData (i * 4 + 2)))"
  let ?f = "\<lambda>i gb. gb[i := ?G i]"
  let ?P = "\<lambda>n gb. length gb = width * height \<and> (\<forall>i<n. gb ! i = ?G i)"
  have "?P (width * height) (fold ?f [0..<width * height] grayBuffer)"
  proof (rule fold_upt_invariant[where P = ?P])
    show "?P 0 grayBuffer" using len by simp
  next
    fix n gb assume "n < width * height" "?P n gb"
    then show "?P (Suc n) (?f n gb)" by (auto simp: less_Suc_eq nth_list_update)
  qed
  then show "grayscaleLoop ar width height targetData grayBuffer ! i = ?G i"
    and "length (grayscaleLoop ar width height targetData grayBuffer) = width * height"
    using i by (simp_all add: grayscaleLoop_def Let_def)
qed


definition thresholdValue :: "'n arith \<Rightarrow> 'n \<Rightarrow> bool \<Rightarrow> 'n \<Rightarrow> nat" where
  "thresholdValue ar threshold invert g =
     (let newPixel = (if n_lt ar g threshold then 0 else 255)
      in if invert then 255 - newPixel else newPixel)"

lemma thresholdValue_cases: "thresholdValue ar threshold invert g = 0 \<or> thresholdValue ar threshold invert g = 255"
  by (simp add: thresholdValue_def Let_def)

lemma thresholdPixel_writePixel:
  "thresholdPixel ar width threshold invert grayBuffer x y =
   writePixel width x y (thresholdValue ar threshold invert (grayBuffer ! (y * width + x)))"
  by (rule ext) (simp add: thresholdPixel_def thresholdValue_def Let_def)

lemma thresholdLoop_flat:
  "thresholdLoop ar width height threshold invert grayBuffer out =
   fold (\<lambda>i. writePixel width (i mod width) (i div width)
           (thresholdValue ar threshold invert (grayBuffer ! i)))
     [0..<height * width] out"
  by (simp add: thresholdLoop_def nested_fold_flat thresholdPixel_writePixel)

lemma thresholdLoop_packed:
  assumes w: "0 < width" and len: "length targetData = width * height * 4"
  shows "packed_upto width height (width * height)
     (thresholdLoop ar width height threshold invert grayBuffer (targetData, replicate l 0))"
proof -
  let ?f = "\<lambda>i. writePixel width (i mod width) (i div width)
           (thresholdValue ar threshold invert (grayBuffer ! i))"
  have "packed_upto width height (height * width)
      (fold ?f [0..<height * width] (targetData, replicate l 0))"
  proof (rule fold_upt_invariant[where P = "packed_upto width height"])
    show "packed_upto width height 0 (targetData, replicate l 0)"
      using len by (rule packed_upto_init)
  next
    fix n t assume "n < height * width" "packed_upto width height n t"
    then show "packed_upto width height (Suc n) (?f n t)"
      using thresholdValue_cases[of ar threshold invert "grayBuffer ! n"]
      by (intro packed_upto_step[OF w]) (simp_all add: mult.commute)
  qed
  then show ?thesis by (simp add: thresholdLoop_flat mult.commute)
qed

lemma thresholdLoop_preview:
  assumes w: "0 < width" and len: "length (fst out) = width * height * 4"
    and i: "i < width * height"
  shows "fst (thresholdLoop ar width height threshold invert grayBuffer out) ! (i * 4) =
     clamp8 (thresholdValue ar threshold invert (grayBuffer ! i))"
proof -
  let ?V = "\<lambda>i. thresholdValue ar threshold invert (grayBuffer ! i)"
  let ?f = "\<lambda>i. writePixel width (i mod width) (i div width) (?V i)"
  let ?P = "\<lambda>n t. length (fst t) = width * height * 4 \<and>
     (\<forall>i<n. fst t ! (i * 4) = clamp8 (?V i))"
  have "?P (height * width) (fold ?f [0..<height * width] out)"
  proof (rule fold_upt_invariant[where P = ?P])
    show "?P 0 out" using len by simp
  next
    fix n and t :: "byte list \<times> byte list"
    assume n: "n < height * width" and p: "?P n t"
    have nn: "(n div width) * width + n mod width = n" by simp
    have e: "fst (?f n t) ! (i * 4) = (if i = n then clamp8 (?V n) else fst t ! (i * 4))"
      if "i < Suc n" for i
      using writePixel_fst_nth[of i t width "n mod width" "n div width" "?V n"] that n p
      unfolding nn by (simp add: mult.commute)
    have "fst (?f n t) ! (i * 4) = clamp8 (?V i)" if "i < Suc n" for i
      using e[OF that] p that by (cases "i = n") simp_all
    then show "?P (Suc n) (?f n t)" using p by simp
  qed
  then show ?thesis using i by (simp add: thresholdLoop_flat mult.commute)
qed

lemma ditherPixel_snd:
  "snd (ditherPixel ar width height threshold x y s) =
     writePixel width x y (if n_lt ar (fst s ! (y * width + x)) threshold then 0 else 255) (snd s)"
  by (cases s) (simp add: ditherPixel_def Let_def)

lemma ditherLoop_packed:
  assumes w: "0 < width" and len: "length targetData = width * height * 4"
  shows "packed_upto width height (width * height)
     (snd (ditherLoop (ar :: 'n arith) width height threshold
        (grayBuffer, targetData, replicate l 0)))"
proof -
  let ?f = "\<lambda>i. ditherPixel ar width height threshold (i mod width) (i div width)"
  let ?P = "\<lambda>n t. packed_upto width height n (snd t)"
  have "?P (height * width) (fold ?f [0..<height * width] (grayBuffer, targetData, replicate l 0))"
  proof (rule fold_upt_invariant[where P = ?P])
    show "?P 0 (grayBuffer, targetData, replicate l 0)"
      using len by (simp add: packed_upto_init)
  next
    fix n and t :: "'n list \<times> byte list \<times> byte list"
    assume n: "n < height * width" and p: "?P n t"
    show "?P (Suc n) (?f n t)"
      unfolding ditherPixel_snd using n p
      by (intro packed_upto_step[OF w]) (simp_all add: mult.commute)
  qed
  then show ?thesis by (simp add: ditherLoop_def nested_fold_flat mult.commute)
qed

lemma quantize_packed:
  assumes w: "0 < width" and len: "length targetData = width * height * 4"
  shows "packed_upto width height (width * height)
     (quantize ar width height threshold invert dither targetData)"
proof (cases dither)
  case True
  then show ?thesis
    unfolding quantize_def ditherMode_def Let_def
    using ditherLoop_packed[OF w len, of ar] by simp
next
  case False
  then show ?thesis
    unfolding quantize_def Let_def
    using thresholdLoop_packed[OF w len, of ar] by simp
qed


subsection \<open>Length of the packed buffer\<close>

text \<open>
  Claim C2 (the code diverges). The claim asks for \<open>ceil(W * H / 8)\<close> bytes. The buffer
  \<open>processFrame\<close> returns is the one allocated with \<open>(width * height) / 8\<close>, which
  a typed array truncates. For a 3 by 3 target, whatever the bitmap and the other
  options, it has 1 byte, where \<open>ceil(9 / 8) = 2\<close>.
\<close>

theorem processFrame_pixels_length_3x3:
  "map_sum id (\<lambda>res. length (pixels res))
     (processFrame ar frameImageData
        \<lparr> opt_width = 3, opt_height = 3, opt_threshold = threshold, opt_invert = invert,
          opt_dither = dither, opt_fit = fit \<rparr>) = Inr 1"
  by (simp add: processFrame_result length_quantize)

subsection \<open>The bounds check of the packing step\<close>

lemma byteIdx_in_bounds:
  assumes "(h :: nat) mod 8 = 0" "x < w" "y < h"
  shows "(y div 8) * w + x < (w * h) div 8"
proof -
  obtain q where q: "h = 8 * q" using assms(1) by (auto simp: mod_eq_0_iff_dvd)
  have "y div 8 < q" using assms(3) q by simp
  then have "(y div 8) * w + x < (y div 8 + 1) * w" using assms(2) by simp
  also have "\<dots> \<le> q * w" using \<open>y div 8 < q\<close> by (intro mult_le_mono1) simp
  finally show ?thesis by (simp add: q mult.commute)
qed

lemma byteIdx_out_of_bounds:
  assumes "0 < (w :: nat)" "0 < (h :: nat)" "h mod 8 \<noteq> 0"
  shows "\<not> ((h - 1) div 8) * w + (w - 1) < (w * h) div 8"
proof -
  define q r where "q = h div 8" and "r = h mod 8"
  have h: "h = 8 * q + r" and r: "0 < r" "r < 8" using assms(3) by (simp_all add: q_def r_def)
  have "(h - 1) div 8 = q" using h r by simp
  moreover have "w * h = 8 * (q * w) + r * w" by (simp add: h algebra_simps)
  then have "(w * h) div 8 = q * w + (r * w) div 8" by simp
  moreover have "(r * w) div 8 \<le> (7 * w) div 8"
    using r by (intro div_le_mono mult_le_mono1) simp
  moreover have "(7 * w) div 8 < w" using assms(1) by simp
  ultimately show ?thesis by simp
qed

text \<open>
  Claim C4 (the code diverges). The claim is that the byte index \<open>floor(y / 8) * W + x\<close>
  of every pixel is below the length of the buffer, so that the bounds check never
  suppresses a write. The buffer \<open>processFrame\<close> writes to is the one allocated with
  \<open>(width * height) / 8\<close> bytes, the truncated allocation of C2: for every bitmap and all
  options whose height is not a multiple of 8, the byte index of the last pixel
  \<open>(W - 1, H - 1)\<close> is not below its length, and the check suppresses the write.
\<close>

theorem processFrame_byteIdx_out_of_bounds:
  assumes "0 < opt_width options" "0 < opt_height options" "opt_height options mod 8 \<noteq> 0"
  shows "\<exists>res. processFrame ar frameImageData options = Inr res \<and>
     length (pixels res) = (opt_width options * opt_height options) div 8 \<and>
     \<not> ((opt_height options - 1) div 8) * opt_width options + (opt_width options - 1)
         < length (pixels res)"
  using byteIdx_out_of_bounds[OF assms]
  by (simp add: processFrame_result[OF assms(1,2)] length_quantize)

definition white1 :: ImageData where
  "white1 = \<lparr> img_data = [255, 255, 255, 255], img_width = 1, img_height = 1 \<rparr>"

definition opts :: "nat \<Rightarrow> nat \<Rightarrow> bool \<Rightarrow> bool \<Rightarrow> Fit \<Rightarrow> rat ProcessingOptions" where
  "opts w h i d f = \<lparr> opt_width = w, opt_height = h, opt_threshold = 128, opt_invert = i,
      opt_dither = d, opt_fit = f \<rparr>"

text \<open>
  On a 1 by 1 target the buffer is empty and the only pixel has byte index 0.
\<close>

theorem processFrame_byteIdx_out_of_bounds_witness:
  "processFrame exact_arith white1 (opts 1 1 False False Stretch) =
     Inr \<lparr> pixels = [], preview = white1 \<rparr> \<and>
   \<not> ((opt_height (opts 1 1 False False Stretch) - 1) div 8) *
         opt_width (opts 1 1 False False Stretch) +
       (opt_width (opts 1 1 False False Stretch) - 1) < length ([] :: byte list)"
proof -
  let ?o = "opts 1 1 False False Stretch"
  have e: "processFrame exact_arith white1 ?o = Inr \<lparr> pixels = [], preview = white1 \<rparr>"
    by code_simp
  have w: "0 < opt_width ?o" "0 < opt_height ?o" "opt_height ?o mod 8 \<noteq> 0"
    by (simp_all add: opts_def)
  from processFrame_byteIdx_out_of_bounds[OF w, of exact_arith white1]
  obtain res where r: "processFrame exact_arith white1 ?o = Inr res"
    and b: "\<not> ((opt_height ?o - 1) div 8) * opt_width ?o + (opt_width ?o - 1)
         < length (pixels res)"
    by blast
  have "pixels res = []" using r e by simp
  with b e show ?thesis by simp
qed


subsection \<open>Nearest-neighbour resampling\<close>

lemma clamp8_unat [simp]: "clamp8 (unat (b :: byte)) = b"
proof -
  have "unat b < 2 ^ LENGTH(8)" by (rule unsigned_less)
  then have "unat b < 256" by simp
  then show ?thesis by (simp add: clamp8_def min_def)
qed

lemma texel_in_bounds:
  assumes "0 \<le> srcX" "srcX < int sw" "0 \<le> srcY" "srcY < int sh" "c < 4"
  shows "(nat srcY * sw + nat srcX) * 4 + c < 4 * sw * sh"
proof -
  have "nat srcY * sw + nat srcX < (nat srcY + 1) * sw" using assms(1,2) by simp
  also have "\<dots> \<le> sh * sw" using assms(3,4) by (intro mult_le_mono1) simp
  finally show ?thesis using assms(5) by (simp add: mult.commute)
qed

lemma if_boolI: "(c \<Longrightarrow> a) \<Longrightarrow> (\<not> c \<Longrightarrow> b) \<Longrightarrow> (if c then a else b)"
  by simp

definition img21 :: ImageData where
  "img21 = \<lparr> img_data = [10, 20, 30, 255, 40, 50, 60, 255], img_width = 2, img_height = 1 \<rparr>"

text \<open>
  Claim C8. For every source bitmap (with \<open>4 * sw * sh\<close> bytes), every target size and
  every fit mode, the resampled bitmap has \<open>width * height * 4\<close> bytes, and the four
  bytes of each target pixel \<open>(x, y)\<close> are those of the source texel at
  \<open>(floor((x - offsetX) / scaleX), floor((y - offsetY) / scaleY))\<close> when that lies in the
  source, and \<open>(0, 0, 0, 255)\<close> otherwise. Scale and offset are: for stretch, the two
  axis ratios and offset 0; for cover, the maximum of the ratios on both axes and
  \<open>(target - src * scale) / 2\<close>; for contain, the minimum and the same centring. The
  statement holds for every arithmetic \<open>ar\<close>.
\<close>

theorem resample_nearest_neighbor:
  assumes "x < width" "y < height"
    and "length (img_data img) = 4 * img_width img * img_height img"
  shows "length (resample ar img width height fit) = width * height * 4 \<and>
     (case fitParams ar fit width height (img_width img) (img_height img) of
        (scaleX, scaleY, offsetX, offsetY) \<Rightarrow>
          (let srcX = n_floor ar (n_div ar (n_sub ar (n_num ar (of_nat x)) offsetX) scaleX);
               srcY = n_floor ar (n_div ar (n_sub ar (n_num ar (of_nat y)) offsetY) scaleY);
               t = (y * width + x) * 4;
               out = resample ar img width height fit
           in if 0 \<le> srcX \<and> srcX < int (img_width img) \<and> 0 \<le> srcY \<and> srcY < int (img_height img)
              then map (\<lambda>c. out ! (t + c)) [0..<4] =
                   map (\<lambda>c. img_data img ! ((nat srcY * img_width img + nat srcX) * 4 + c)) [0..<4]
              else map (\<lambda>c. out ! (t + c)) [0..<4] = [0, 0, 0, 255])) \<and>
     fitParams ar Stretch width height sw sh =
       (n_div ar (n_num ar (of_nat width)) (n_num ar (of_nat sw)),
        n_div ar (n_num ar (of_nat height)) (n_num ar (of_nat sh)), n_num ar 0, n_num ar 0) \<and>
     fitParams ar Cover width height sw sh =
       (let scale = n_max ar (n_div ar (n_num ar (of_nat width)) (n_num ar (of_nat sw)))
                             (n_div ar (n_num ar (of_nat height)) (n_num ar (of_nat sh)))
        in (scale, scale,
            n_div ar (n_sub ar (n_num ar (of_nat width)) (n_mul ar (n_num ar (of_nat sw)) scale)) (n_num ar 2),
            n_div ar (n_sub ar (n_num ar (of_nat height)) (n_mul ar (n_num ar (of_nat sh)) scale)) (n_num ar 2))) \<and>
     fitParams ar Contain width height sw sh =
       (let scale = n_min ar (n_div ar (n_num ar (of_nat width)) (n_num ar (of_nat sw)))
                             (n_div ar (n_num ar (of_nat height)) (n_num ar (of_nat sh)))
        in (scale, scale,
            n_div ar (n_sub ar (n_num ar (of_nat width)) (n_mul ar (n_num ar (of_nat sw)) scale)) (n_num ar 2),
            n_div ar (n_sub ar (n_num ar (of_nat height)) (n_mul ar (n_num ar (of_nat sh)) scale)) (n_num ar 2)))"
proof (intro conjI)
  show "length (resample ar img width height fit) = width * height * 4" by simp
next
  obtain scaleX scaleY offsetX offsetY where
    p: "fitParams ar fit width height (img_width img) (img_height img) =
        (scaleX, scaleY, offsetX, offsetY)"
    by (cases "fitParams ar fit width height (img_width img) (img_height img)")
  let ?srcX = "n_floor ar (n_div ar (n_sub ar (n_num ar (of_nat x)) offsetX) scaleX)"
  let ?srcY = "n_floor ar (n_div ar (n_sub ar (n_num ar (of_nat y)) offsetY) scaleY)"
  let ?out = "resample ar img width height fit"
  let ?t = "(y * width + x) * 4"
  have nth: "?out ! (?t + c) =
      texelBytes (sampleTexel ar (img_data img) (img_width img) (img_height img)
        (scaleX, scaleY, offsetX, offsetY) x y) ! c" if "c < 4" for c
    using resample_nth[OF assms(1,2) that, of ar img fit] unfolding p .
  have u: "[0..<4] = [0, 1, 2, 3]" by (simp add: upt_rec)
  let ?C = "0 \<le> ?srcX \<and> ?srcX < int (img_width img) \<and> 0 \<le> ?srcY \<and> ?srcY < int (img_height img)"
  have A: "map (\<lambda>c. ?out ! (?t + c)) [0..<4] =
      map (\<lambda>c. img_data img ! ((nat ?srcY * img_width img + nat ?srcX) * 4 + c)) [0..<4]"
    if C: ?C
  proof -
    have rd: "rd (img_data img) ((nat ?srcY * img_width img + nat ?srcX) * 4 + c) =
        unat (img_data img ! ((nat ?srcY * img_width img + nat ?srcX) * 4 + c))" if "c < 4" for c
      using texel_in_bounds[of ?srcX "img_width img" ?srcY "img_height img" c] C that assms(3)
      by (simp add: rd_def)
    have "?out ! (?t + c) = img_data img ! ((nat ?srcY * img_width img + nat ?srcX) * 4 + c)"
      if "c < 4" for c
    proof -
      have c: "c = 0 \<or> c = 1 \<or> c = 2 \<or> c = 3" using that by auto
      show ?thesis
        unfolding nth[OF that] using c C rd[of 0] rd[of 1] rd[of 2] rd[of 3]
        by (auto simp: sampleTexel_def texelBytes_def Let_def)
    qed
    from this[of 0] this[of 1] this[of 2] this[of 3] show ?thesis by (simp add: u)
  qed
  have B: "map (\<lambda>c. ?out ! (?t + c)) [0..<4] = [0, 0, 0, 255]" if C: "\<not> ?C"
  proof -
    have "?out ! (?t + c) = [0, 0, 0, 255] ! c" if "c < 4" for c
      unfolding nth[OF that] using C
      by (auto simp: sampleTexel_def texelBytes_def Let_def clamp8_def)
    from this[of 0] this[of 1] this[of 2] this[of 3] show ?thesis by (simp add: u)
  qed
  show "case fitParams ar fit width height (img_width img) (img_height img) of
        (scaleX, scaleY, offsetX, offsetY) \<Rightarrow>
          (let srcX = n_floor ar (n_div ar (n_sub ar (n_num ar (of_nat x)) offsetX) scaleX);
               srcY = n_floor ar (n_div ar (n_sub ar (n_num ar (of_nat y)) offsetY) scaleY);
               t = (y * width + x) * 4;
               out = resample ar img width height fit
           in if 0 \<le> srcX \<and> srcX < int (img_width img) \<and> 0 \<le> srcY \<and> srcY < int (img_height img)
              then map (\<lambda>c. out ! (t + c)) [0..<4] =
                   map (\<lambda>c. img_data img ! ((nat srcY * img_width img + nat srcX) * 4 + c)) [0..<4]
              else map (\<lambda>c. out ! (t + c)) [0..<4] = [0, 0, 0, 255])"
    unfolding p prod.case Let_def by (rule if_boolI) (rule A, assumption, rule B, assumption)
qed (simp_all add: fitParams_def Let_def)


theorem resample_nearest_neighbor_witness:
  "map (\<lambda>c. resample exact_arith img21 4 1 Stretch ! ((0 * 4 + 3) * 4 + c)) [0..<4] =
     [40, 50, 60, 255] \<and>
   map (\<lambda>c. resample exact_arith img21 4 4 Contain ! ((0 * 4 + 0) * 4 + c)) [0..<4] =
     [0, 0, 0, 255]"
proof -
  have wf: "length (img_data img21) = 4 * img_width img21 * img_height img21"
    by (simp add: img21_def)
  have u: "[0..<4] = [0, 1, 2, 3]" by (simp add: upt_rec)
  have f: "\<lfloor>(3 :: rat) / 2\<rfloor> = 1" "\<lfloor>- ((1 :: rat) / 2)\<rfloor> = - 1" "\<lfloor>(- 1 :: rat) / 2\<rfloor> = - 1"
    by (simp_all add: floor_eq_iff)
  have a: "map (\<lambda>c. resample exact_arith img21 4 1 Stretch ! ((0 * 4 + 3) * 4 + c)) [0..<4] =
     [40, 50, 60, 255]"
    using resample_nearest_neighbor[of 3 4 0 1 img21 exact_arith Stretch, OF _ _ wf,
        THEN conjunct2, THEN conjunct1]
    by (simp add: fitParams_def exact_arith_def img21_def Let_def u f)
  have b: "map (\<lambda>c. resample exact_arith img21 4 4 Contain ! ((0 * 4 + 0) * 4 + c)) [0..<4] =
     [0, 0, 0, 255]"
    using resample_nearest_neighbor[of 0 4 0 4 img21 exact_arith Contain, OF _ _ wf,
        THEN conjunct2, THEN conjunct1]
    by (simp add: fitParams_def exact_arith_def img21_def Let_def u f)
  from a b show ?thesis by blast
qed


subsection \<open>Invert and the two quantization modes\<close>

lemma length_grayscaleLoop [simp]:
  "length (grayscaleLoop ar width height targetData grayBuffer) = length grayBuffer"
  unfolding grayscaleLoop_def by (rule fold_preserves) (simp_all add: Let_def)

lemma clamp8_numerals [simp]: "clamp8 0 = 0" "clamp8 255 = 255"
  by (simp_all add: clamp8_def)








subsection \<open>The page-addressed layout of the result\<close>

lemma processFrame_layout_pixels:
  assumes w: "0 < opt_width options" and h: "0 < opt_height options"
    and h8: "opt_height options mod 8 = 0"
    and res: "processFrame ar frameImageData options = Inr res"
    and x: "x < opt_width options" and y: "y < opt_height options"
  shows "(y div 8) * opt_width options + x < length (pixels res) \<and>
     (bit (pixels res ! ((y div 8) * opt_width options + x)) (y mod 8) \<longleftrightarrow>
      128 < unat (img_data (preview res) ! ((y * opt_width options + x) * 4)))"
proof -
  let ?w = "opt_width options" and ?h = "opt_height options"
  let ?q = "quantize ar ?w ?h (opt_threshold options) (opt_invert options) (opt_dither options)
              (resample ar frameImageData ?w ?h (opt_fit options))"
  have r: "pixels res = snd ?q" "img_data (preview res) = fst ?q"
    using res processFrame_result[OF w h, of ar frameImageData] by auto
  have p: "packed_upto ?w ?h (?w * ?h) ?q"
    using w by (rule quantize_packed) simp
  have "y * ?w + x < (y + 1) * ?w" using x by simp
  also have "\<dots> \<le> ?h * ?w" using y by (intro mult_le_mono1) simp
  finally have i: "y * ?w + x < ?w * ?h" by (simp add: mult.commute)
  have m: "(y * ?w + x) mod ?w = x" "(y * ?w + x) div ?w = y" using x by simp_all
  have b: "(y div 8) * ?w + x < length (snd ?q)"
    using byteIdx_in_bounds[OF h8 x y] by (simp add: length_quantize)
  from p i b show ?thesis
    unfolding packed_upto_def r using m by (metis (no_types, lifting))
qed


lemma processFrame_layout_bytes:
  assumes w: "0 < opt_width options" and h: "0 < opt_height options"
    and h8: "opt_height options mod 8 = 0"
    and res: "processFrame ar frameImageData options = Inr res"
    and b: "b < length (pixels res)" and k: "k < 8"
  shows "bit (pixels res ! b) k \<longleftrightarrow>
      128 < unat (img_data (preview res) !
        (((8 * (b div opt_width options) + k) * opt_width options + b mod opt_width options) * 4))"
proof -
  let ?w = "opt_width options" and ?h = "opt_height options"
  obtain q where q: "?h = 8 * q" using h8 by (auto simp: mod_eq_0_iff_dvd)
  have "length (pixels res) = (?w * ?h) div 8"
    using res processFrame_result[OF w h, of ar frameImageData] by (auto simp: length_quantize)
  then have "b < q * ?w" using b by (simp add: q mult.commute)
  then have "b div ?w < q" using w by (simp add: div_less_iff_less_mult)
  then have y: "8 * (b div ?w) + k < ?h" using k q by simp
  have x: "b mod ?w < ?w" using w by simp
  have e: "(8 * (b div ?w) + k) div 8 = b div ?w" "(8 * (b div ?w) + k) mod 8 = k"
    using k by simp_all
  from processFrame_layout_pixels[OF w h h8 res x y]
  show ?thesis unfolding e by simp
qed

subsection \<open>One lit pixel in a 16 by 16 frame\<close>

definition single_lit :: ImageData where
  "single_lit = \<lparr> img_data = map (\<lambda>j. if j mod 4 = 3 \<or> j div 4 = 10 * 16 + 3 then 255 else 0)
                                 [0..<16 * 16 * 4],
                   img_width = 16, img_height = 16 \<rparr>"

lemma single_lit_nth:
  assumes "i < 256" "c < 4"
  shows "img_data single_lit ! (i * 4 + c) = (if c = 3 \<or> i = 163 then 255 else 0)"
proof -
  have "i * 4 + c < 1024" using assms by simp
  moreover have "(i * 4 + c) mod 4 = c" "(i * 4 + c) div 4 = i" using assms(2) by simp_all
  ultimately show ?thesis by (simp add: single_lit_def)
qed

lemma single_lit_resample:
  assumes "i < 256" "c < 4"
  shows "resample exact_arith single_lit 16 16 Stretch ! (i * 4 + c) =
     (if c = 3 \<or> i = 163 then 255 else 0)"
proof -
  let ?x = "i mod 16" and ?y = "i div 16"
  have xy: "?x < 16" "?y < 16" using assms(1) by simp_all
  have i: "?y * 16 + ?x = i" by simp
  have idx: "(nat (int ?y) * 16 + nat (int ?x)) * 4 + d = i * 4 + d" for d
    using i by simp
  have t: "sampleTexel exact_arith (img_data single_lit) 16 16
        (fitParams exact_arith Stretch 16 16 16 16) ?x ?y =
      (rd (img_data single_lit) (i * 4), rd (img_data single_lit) (i * 4 + 1),
       rd (img_data single_lit) (i * 4 + 2), rd (img_data single_lit) (i * 4 + 3))"
    using xy idx[of 0] idx[of 1] idx[of 2] idx[of 3]
    by (simp add: sampleTexel_def fitParams_def exact_arith_def Let_def)
  have l: "length (img_data single_lit) = 1024" by (simp add: single_lit_def)
  have r: "rd (img_data single_lit) (i * 4 + d) = unat (img_data single_lit ! (i * 4 + d))"
    if "d < 4" for d
    using assms(1) that l by (simp add: rd_def)
  have "resample exact_arith single_lit 16 16 Stretch ! ((?y * 16 + ?x) * 4 + c) =
      texelBytes (sampleTexel exact_arith (img_data single_lit) 16 16
        (fitParams exact_arith Stretch 16 16 16 16) ?x ?y) ! c"
    using resample_nth[OF xy assms(2), of exact_arith single_lit Stretch]
    by (simp add: single_lit_def)
  also have "\<dots> = img_data single_lit ! (i * 4 + c)"
  proof -
    have c: "c = 0 \<or> c = 1 \<or> c = 2 \<or> c = 3" using assms(2) by auto
    show ?thesis unfolding t using c r[of 0] r[of 1] r[of 2] r[of 3]
      by (auto simp: texelBytes_def)
  qed
  finally show ?thesis unfolding i using single_lit_nth[OF assms] by simp
qed


lemma single_lit_preview:
  assumes "i < 256"
  shows "fst (quantize exact_arith 16 16 128 False False
            (resample exact_arith single_lit 16 16 Stretch)) ! (i * 4) =
     (if i = 163 then 255 else 0)"
proof -
  let ?td = "resample exact_arith single_lit 16 16 Stretch"
  let ?gb = "grayscaleLoop exact_arith 16 16 ?td (replicate (16 * 16) (n_num exact_arith 0))"
  have r: "rd ?td (i * 4 + c) = (if i = 163 then 255 else 0)" if "c < 3" for c
  proof -
    have "i * 4 + c < length ?td" using assms that by simp
    then show ?thesis using single_lit_resample[OF assms, of c] that
      by (simp add: rd_def)
  qed
  have g: "?gb ! i = (if i = 163 then 255 else 0)"
    using grayscaleLoop_nth(1)[of "replicate (16 * 16) (n_num exact_arith 0)" 16 16 i
        exact_arith ?td] assms r[of 0] r[of 1] r[of 2]
    by (simp add: luminance_def exact_arith_def)
  have "fst (thresholdLoop exact_arith 16 16 128 False ?gb (?td, replicate ((16 * 16) div 8) 0)) !
      (i * 4) = clamp8 (thresholdValue exact_arith 128 False (?gb ! i))"
    using assms by (intro thresholdLoop_preview) simp_all
  then show ?thesis
    unfolding g by (simp add: quantize_def Let_def thresholdValue_def exact_arith_def)
qed

lemma single_lit_slot:
  assumes "(b :: nat) < 32" "(k :: nat) < 8"
  shows "(8 * (b div 16) + k) * 16 + b mod 16 < 256"
    and "(8 * (b div 16) + k) * 16 + b mod 16 = 163 \<longleftrightarrow> b = 19 \<and> k = 2"
proof -
  have d: "b div 16 < 2" using assms(1) by simp
  have m: "b mod 16 < 16" by simp
  have "(8 * (b div 16) + k) * 16 + b mod 16 < (8 * (b div 16) + k + 1) * 16" using m by simp
  also have "\<dots> \<le> 16 * 16" using d assms(2) by (intro mult_le_mono1) simp
  finally show "(8 * (b div 16) + k) * 16 + b mod 16 < 256" by simp
  have b: "b = 16 * (b div 16) + b mod 16" by simp
  show "(8 * (b div 16) + k) * 16 + b mod 16 = 163 \<longleftrightarrow> b = 19 \<and> k = 2"
  proof
    assume a: "(8 * (b div 16) + k) * 16 + b mod 16 = 163"
    have mm: "(n * 16 + r) mod 16 = r mod 16" for n r :: nat by simp
    have dd: "r < 16 \<Longrightarrow> (n * 16 + r) div 16 = n" for n r :: nat by simp
    have m3: "b mod 16 = 3"
      using mm[of "8 * (b div 16) + k" "b mod 16", unfolded a] by simp
    have s: "8 * (b div 16) + k = 10"
      using dd[OF m, of "8 * (b div 16) + k", unfolded a] by simp
    have "b div 16 = 0 \<or> b div 16 = 1" using d by auto
    then have "b div 16 = 1 \<and> k = 2" using s assms(2) by (elim disjE) simp_all
    then show "b = 19 \<and> k = 2" using b m3 by simp
  next
    assume "b = 19 \<and> k = 2"
    then show "(8 * (b div 16) + k) * 16 + b mod 16 = 163" by simp
  qed
qed

lemma bit_byte_4: "bit (4 :: byte) k \<longleftrightarrow> k = 2"
proof -
  have "(4 :: byte) = 2 ^ 2" by simp
  then show ?thesis by (simp only: bit_exp_iff possible_bit_word) auto
qed

lemma single_lit_pixels:
  "processFrame exact_arith single_lit
     \<lparr> opt_width = 16, opt_height = 16, opt_threshold = 128, opt_invert = False,
       opt_dither = False, opt_fit = Stretch \<rparr> = Inr res \<Longrightarrow>
   pixels res = (replicate 32 0)[19 := 4]"
proof -
  let ?o = "\<lparr> opt_width = 16, opt_height = 16, opt_threshold = 128 :: rat, opt_invert = False,
       opt_dither = False, opt_fit = Stretch \<rparr>"
  assume res: "processFrame exact_arith single_lit ?o = Inr res"
  have w: "0 < opt_width ?o" "0 < opt_height ?o" "opt_height ?o mod 8 = 0" by simp_all
  have r: "pixels res = snd (quantize exact_arith 16 16 128 False False
            (resample exact_arith single_lit 16 16 Stretch))"
    "img_data (preview res) = fst (quantize exact_arith 16 16 128 False False
            (resample exact_arith single_lit 16 16 Stretch))"
    using res processFrame_result[OF w(1,2), of exact_arith single_lit] by auto
  have len: "length (pixels res) = 32" unfolding r by (simp add: length_quantize)
  have "pixels res ! b = (replicate 32 0)[19 := 4] ! b" if b: "b < 32" for b
  proof (rule bit_word_eqI)
    fix k assume "k < LENGTH(8)"
    then have k: "k < 8" by simp
    have "bit (pixels res ! b) k \<longleftrightarrow>
        128 < unat (img_data (preview res) ! (((8 * (b div 16) + k) * 16 + b mod 16) * 4))"
      using processFrame_layout_bytes[OF w res _ k, of b] b len by simp
    also have "\<dots> \<longleftrightarrow> (8 * (b div 16) + k) * 16 + b mod 16 = 163"
      unfolding r(2) using single_lit_preview[OF single_lit_slot(1)[OF b k]] by simp
    also have "\<dots> \<longleftrightarrow> b = 19 \<and> k = 2" using single_lit_slot(2)[OF b k] .
    also have "\<dots> \<longleftrightarrow> bit ((replicate 32 0)[19 := 4 :: byte] ! b) k"
      using b bit_byte_4[of k] by (simp add: nth_list_update)
    finally show "bit (pixels res ! b) k \<longleftrightarrow> bit ((replicate 32 0)[19 := 4 :: byte] ! b) k" .
  qed
  then show ?thesis using len by (intro nth_equalityI) simp_all
qed


definition white2 :: ImageData where
  "white2 = \<lparr> img_data = replicate 16 255, img_width = 2, img_height = 2 \<rparr>"

text \<open>
  When the height is a multiple of 8 the buffer holds every page: the byte of every pixel
  \<open>(x, y)\<close>, \<open>floor(y / 8) * W + x\<close>, lies in the buffer, and its bit \<open>y mod 8\<close> is set
  exactly when the quantized value of the pixel (its preview byte) exceeds 128; every bit
  of every byte is the bit of one pixel, so no other bit is set. A 16 by 16 bitmap with the
  single lit pixel \<open>(3, 10)\<close> gives a buffer whose only set bit is bit 2 of byte 19.
\<close>

lemma processFrame_layout_pages:
  assumes "0 < opt_width options" "0 < opt_height options" "opt_height options mod 8 = 0"
  shows "(\<exists>res. processFrame ar frameImageData options = Inr res \<and>
       (\<forall>x<opt_width options. \<forall>y<opt_height options.
          (y div 8) * opt_width options + x < length (pixels res) \<and>
          (bit (pixels res ! ((y div 8) * opt_width options + x)) (y mod 8) \<longleftrightarrow>
           128 < unat (img_data (preview res) ! ((y * opt_width options + x) * 4)))) \<and>
       (\<forall>b<length (pixels res). \<forall>k<8.
          bit (pixels res ! b) k \<longleftrightarrow>
          128 < unat (img_data (preview res) !
            (((8 * (b div opt_width options) + k) * opt_width options
               + b mod opt_width options) * 4)))) \<and>
     map_sum id pixels (processFrame exact_arith single_lit (opts 16 16 False False Stretch)) =
       Inr ((replicate 32 0)[19 := 4])"
proof
  obtain res where res: "processFrame ar frameImageData options = Inr res"
    using processFrame_result[OF assms(1,2)] by blast
  show "\<exists>res. processFrame ar frameImageData options = Inr res \<and>
       (\<forall>x<opt_width options. \<forall>y<opt_height options.
          (y div 8) * opt_width options + x < length (pixels res) \<and>
          (bit (pixels res ! ((y div 8) * opt_width options + x)) (y mod 8) \<longleftrightarrow>
           128 < unat (img_data (preview res) ! ((y * opt_width options + x) * 4)))) \<and>
       (\<forall>b<length (pixels res). \<forall>k<8.
          bit (pixels res ! b) k \<longleftrightarrow>
          128 < unat (img_data (preview res) !
            (((8 * (b div opt_width options) + k) * opt_width options
               + b mod opt_width options) * 4)))"
    using res processFrame_layout_pixels[OF assms res] processFrame_layout_bytes[OF assms res]
    by blast
next
  obtain res where res: "processFrame exact_arith single_lit (opts 16 16 False False Stretch) = Inr res"
    using processFrame_result[of "opts 16 16 False False Stretch" exact_arith single_lit]
    by (auto simp: opts_def)
  then have "pixels res = (replicate 32 0)[19 := 4]"
    using single_lit_pixels[of res] by (simp add: opts_def)
  then show "map_sum id pixels (processFrame exact_arith single_lit (opts 16 16 False False Stretch)) =
       Inr ((replicate 32 0)[19 := 4])"
    by (simp add: res)
qed

text \<open>
  Claim C3 (the code diverges). The claim is that every pixel whose quantized value exceeds
  128 sets bit \<open>y mod 8\<close> of byte \<open>floor(y / 8) * W + x\<close>, and the comment above the
  allocation says the same (\<open>Byte 1: (1,0) bit0\<close>). On a 3 by 3 target, for every bitmap
  and all options, the buffer \<open>processFrame\<close> returns has 1 byte, the truncated allocation
  of C2, so byte 1, the byte of pixel \<open>(1, 0)\<close>, is not in it and the bounds check drops
  the write. On a white bitmap that pixel is lit, its quantized value 255, and the buffer
  is the single byte 7, the three pixels of column 0.
\<close>

theorem processFrame_packed_layout_3x3:
  "(\<exists>res. processFrame ar frameImageData
        \<lparr> opt_width = 3, opt_height = 3, opt_threshold = threshold, opt_invert = invert,
          opt_dither = dither, opt_fit = fit \<rparr> = Inr res \<and>
      length (pixels res) = 1 \<and> \<not> ((0 div 8) * 3 + 1 < length (pixels res))) \<and>
   processFrame exact_arith white2 (opts 3 3 False False Stretch) =
     Inr \<lparr> pixels = [7], preview = \<lparr> img_data = replicate 36 255,
       img_width = 3, img_height = 3 \<rparr> \<rparr> \<and>
   128 < unat (replicate 36 (255 :: byte) ! ((0 * 3 + 1) * 4))"
proof -
  have "processFrame exact_arith white2 (opts 3 3 False False Stretch) =
     Inr \<lparr> pixels = [7], preview = \<lparr> img_data = replicate 36 255,
       img_width = 3, img_height = 3 \<rparr> \<rparr>"
    by code_simp
  then show ?thesis by (simp add: processFrame_result length_quantize)
qed


section \<open>Frame composition: \<open>extractComposedFrames\<close>\<close>

subsection \<open>The canvas operations the compositor calls\<close>

text \<open>
  A canvas bitmap is modelled as an \<open>ImageData\<close>: its size and its RGBA bytes, row by
  row. The operations below are those of the Canvas 2D API that \<open>extractComposedFrames\<close>
  calls, as the HTML standard defines them, on this representation. A new canvas is
  transparent black.
\<close>

type_synonym rgba = "byte \<times> byte \<times> byte \<times> byte"

definition blankCanvas :: "nat \<Rightarrow> nat \<Rightarrow> ImageData" where
  "blankCanvas w h = \<lparr> img_data = replicate (4 * w * h) 0, img_width = w, img_height = h \<rparr>"

definition pixelAt :: "ImageData \<Rightarrow> nat \<Rightarrow> nat \<Rightarrow> rgba" where
  "pixelAt img x y =
     (let i = (y * img_width img + x) * 4; d = img_data img
      in (d ! i, d ! (i + 1), d ! (i + 2), d ! (i + 3)))"

definition channel :: "rgba \<Rightarrow> nat \<Rightarrow> byte" where
  "channel p c = (case p of (r, g, b, a) \<Rightarrow> [r, g, b, a] ! c)"

definition alpha :: "rgba \<Rightarrow> byte" where
  "alpha p = channel p 3"

text \<open>
  \<open>ctx.getImageData(0, 0, w, h)\<close> on a canvas of size \<open>w\<close> by \<open>h\<close>: a copy of the bitmap;
  it throws when a dimension is 0.
\<close>

definition getImageData :: "ImageData \<Rightarrow> js_error + ImageData" where
  "getImageData canvas =
     (if img_width canvas = 0 \<or> img_height canvas = 0 then Inl IndexSizeError else Inr canvas)"

text \<open>
  \<open>ctx.putImageData(img, 0, 0)\<close>: the pixels of \<open>img\<close> replace those of the canvas, with
  no compositing, where \<open>img\<close> covers it.
\<close>

definition putImageData :: "ImageData \<Rightarrow> ImageData \<Rightarrow> ImageData" where
  "putImageData canvas img =
     canvas \<lparr> img_data :=
       map (\<lambda>j. let i = j div 4; x = i mod img_width canvas; y = i div img_width canvas
                in if x < img_width img \<and> y < img_height img
                   then channel (pixelAt img x y) (j mod 4)
                   else img_data canvas ! j)
         [0..<4 * img_width canvas * img_height canvas] \<rparr>"

text \<open>
  The default compositing of \<open>drawImage\<close> is source-over. A source pixel of alpha 255
  replaces the destination, one of alpha 0 leaves it; for an alpha in between the result
  is a blend, kept as the parameter \<open>blend\<close>.
\<close>

definition sourceOver :: "(rgba \<Rightarrow> rgba \<Rightarrow> rgba) \<Rightarrow> rgba \<Rightarrow> rgba \<Rightarrow> rgba" where
  "sourceOver blend src dst =
     (if alpha src = 255 then src else if alpha src = 0 then dst else blend src dst)"

text \<open>
  \<open>ctx.drawImage(source, dx, dy)\<close>: the source bitmap is composited onto the canvas
  with its top left corner at \<open>(dx, dy)\<close>, clipped to the canvas.
\<close>

definition drawImage ::
  "(rgba \<Rightarrow> rgba \<Rightarrow> rgba) \<Rightarrow> ImageData \<Rightarrow> ImageData \<Rightarrow> nat \<Rightarrow> nat \<Rightarrow> ImageData" where
  "drawImage blend canvas source dx dy =
     canvas \<lparr> img_data :=
       map (\<lambda>j. let i = j div 4; x = i mod img_width canvas; y = i div img_width canvas
                in if dx \<le> x \<and> x < dx + img_width source \<and>
                      dy \<le> y \<and> y < dy + img_height source
                   then channel (sourceOver blend (pixelAt source (x - dx) (y - dy))
                                   (pixelAt canvas x y)) (j mod 4)
                   else img_data canvas ! j)
         [0..<4 * img_width canvas * img_height canvas] \<rparr>"

text \<open>\<open>ctx.clearRect(rx, ry, rw, rh)\<close>: the rectangle becomes transparent black.\<close>

definition clearRect :: "ImageData \<Rightarrow> nat \<Rightarrow> nat \<Rightarrow> nat \<Rightarrow> nat \<Rightarrow> ImageData" where
  "clearRect canvas rx ry rw rh =
     canvas \<lparr> img_data :=
       map (\<lambda>j. let i = j div 4; x = i mod img_width canvas; y = i div img_width canvas
                in if rx \<le> x \<and> x < rx + rw \<and> ry \<le> y \<and> y < ry + rh
                   then 0
                   else img_data canvas ! j)
         [0..<4 * img_width canvas * img_height canvas] \<rparr>"

subsection \<open>The compositor\<close>

text \<open>A raw frame of the GIF decoder: \<open>dims\<close>, \<open>patch\<close> and \<open>disposalType\<close>.\<close>

record RawFrame =
  dims_left :: nat
  dims_top :: nat
  dims_width :: nat
  dims_height :: nat
  patch :: "byte list"
  disposalType :: nat

text \<open>
  The body of \<open>rawFrames.forEach\<close>. The state is the main canvas and the array
  \<open>frames\<close>; the patch canvas is resized and overwritten for every frame.
\<close>

definition composeFrame ::
  "(rgba \<Rightarrow> rgba \<Rightarrow> rgba) \<Rightarrow> ImageData \<times> ImageData list \<Rightarrow> RawFrame \<Rightarrow>
   js_error + ImageData \<times> ImageData list" where
  "composeFrame blend s frame =
     (case s of (ctx, frames) \<Rightarrow>
      (case new_ImageData (patch frame) (dims_width frame) (dims_height frame) of
         Inl e \<Rightarrow> Inl e
       | Inr patchData \<Rightarrow>
      (case (if disposalType frame = 3 then map_sum id Some (getImageData ctx) else Inr None) of
         Inl e \<Rightarrow> Inl e
       | Inr backup \<Rightarrow>
      (let patchCanvas = putImageData (blankCanvas (dims_width frame) (dims_height frame)) patchData;
           ctx = drawImage blend ctx patchCanvas (dims_left frame) (dims_top frame)
       in case getImageData ctx of
            Inl e \<Rightarrow> Inl e
          | Inr frameImage \<Rightarrow>
              (let frames = frames @ [frameImage];
                   ctx = (if disposalType frame = 2
                          then clearRect ctx (dims_left frame) (dims_top frame)
                                 (dims_width frame) (dims_height frame)
                          else if disposalType frame = 3 \<and> backup \<noteq> None
                          then putImageData ctx (the backup)
                          else ctx)
               in Inr (ctx, frames))))))"

fun composeFrames ::
  "(rgba \<Rightarrow> rgba \<Rightarrow> rgba) \<Rightarrow> RawFrame list \<Rightarrow> ImageData \<times> ImageData list \<Rightarrow>
   js_error + ImageData \<times> ImageData list" where
  "composeFrames blend [] s = Inr s"
| "composeFrames blend (frame # rawFrames) s =
     (case composeFrame blend s frame of
        Inl e \<Rightarrow> Inl e
      | Inr s' \<Rightarrow> composeFrames blend rawFrames s')"

definition extractComposedFrames ::
  "(rgba \<Rightarrow> rgba \<Rightarrow> rgba) \<Rightarrow> RawFrame list \<Rightarrow> nat \<Rightarrow> nat \<Rightarrow> js_error + ImageData list" where
  "extractComposedFrames blend rawFrames gifWidth gifHeight =
     map_sum id snd (composeFrames blend rawFrames (blankCanvas gifWidth gifHeight, []))"


subsection \<open>Properties of the canvas operations\<close>

lemma channel_pixelAt:
  "c < 4 \<Longrightarrow> channel (pixelAt img x y) c = img_data img ! ((y * img_width img + x) * 4 + c)"
proof -
  assume "c < 4"
  then have "c = 0 \<or> c = 1 \<or> c = 2 \<or> c = 3" by auto
  then show ?thesis by (auto simp: channel_def pixelAt_def Let_def)
qed

lemma channels_rgba: "(channel p 0, channel p 1, channel p 2, channel p 3) = p"
  by (cases p) (simp add: channel_def)

lemma pixel_index:
  assumes "x < (w :: nat)" "c < (4 :: nat)"
  shows "((y * w + x) * 4 + c) div 4 = y * w + x" "((y * w + x) * 4 + c) mod 4 = c"
    "(y * w + x) mod w = x" "(y * w + x) div w = y"
proof -
  have "(i * 4 + c) div 4 = i" "(i * 4 + c) mod 4 = c" for i using assms(2) by simp_all
  then show "((y * w + x) * 4 + c) div 4 = y * w + x" "((y * w + x) * 4 + c) mod 4 = c"
    by blast+
  show "(y * w + x) mod w = x" "(y * w + x) div w = y" using assms(1) by simp_all
qed

lemma pixel_in_canvas:
  assumes "x < w" "y < h" "c < 4"
  shows "(y * w + x) * 4 + c < 4 * w * (h :: nat)"
proof -
  have "y * w + x < (y + 1) * w" using assms(1) by simp
  also have "\<dots> \<le> h * w" using assms(2) by (intro mult_le_mono1) simp
  finally show ?thesis using assms(3) by (simp add: mult.commute)
qed

lemma putImageData_same:
  assumes "img_width img = img_width canvas" "img_height img = img_height canvas"
    and "length (img_data img) = 4 * img_width img * img_height img"
  shows "img_data (putImageData canvas img) = img_data img"
proof (rule nth_equalityI)
  show "length (img_data (putImageData canvas img)) = length (img_data img)"
    using assms by (simp add: putImageData_def)
next
  fix j assume "j < length (img_data (putImageData canvas img))"
  then have j: "j < 4 * img_width img * img_height img"
    using assms by (simp add: putImageData_def)
  let ?w = "img_width img" and ?h = "img_height img"
  have w: "0 < ?w" using j by (cases "?w = 0") simp_all
  have i: "j div 4 < ?h * ?w" using j by (simp add: mult.commute div_less_iff_less_mult)
  have x: "(j div 4) mod ?w < ?w" using w by simp
  have y: "(j div 4) div ?w < ?h" using i w by (simp add: div_less_iff_less_mult)
  have e: "(((j div 4) div ?w) * ?w + (j div 4) mod ?w) * 4 + j mod 4 = j" by simp
  have "channel (pixelAt img ((j div 4) mod ?w) ((j div 4) div ?w)) (j mod 4) = img_data img ! j"
    using channel_pixelAt[of "j mod 4" img "(j div 4) mod ?w" "(j div 4) div ?w"]
    unfolding e by simp
  then show "img_data (putImageData canvas img) ! j = img_data img ! j"
    using j x y assms(1,2) by (simp add: putImageData_def Let_def)
qed

lemma putImageData_blank:
  assumes "new_ImageData p w h = Inr patchData"
  shows "putImageData (blankCanvas w h) patchData = patchData"
proof -
  have d: "img_data patchData = p" "img_width patchData = w" "img_height patchData = h"
    "length p = 4 * w * h"
    using assms by (auto simp: new_ImageData_def split: if_splits)
  have "img_data (putImageData (blankCanvas w h) patchData) = img_data patchData"
    using d by (intro putImageData_same) (simp_all add: blankCanvas_def)
  then show ?thesis using d by (simp add: putImageData_def blankCanvas_def)
qed

lemma pixelAt_drawImage:
  assumes "x < img_width canvas" "y < img_height canvas"
  shows "pixelAt (drawImage blend canvas source dx dy) x y =
     (if dx \<le> x \<and> x < dx + img_width source \<and> dy \<le> y \<and> y < dy + img_height source
      then sourceOver blend (pixelAt source (x - dx) (y - dy)) (pixelAt canvas x y)
      else pixelAt canvas x y)"
proof -
  let ?w = "img_width canvas" and ?h = "img_height canvas"
  let ?d = "img_data (drawImage blend canvas source dx dy)"
  let ?in = "dx \<le> x \<and> x < dx + img_width source \<and> dy \<le> y \<and> y < dy + img_height source"
  let ?p = "sourceOver blend (pixelAt source (x - dx) (y - dy)) (pixelAt canvas x y)"
  have nth: "?d ! ((y * ?w + x) * 4 + c) =
      (if ?in then channel ?p c else img_data canvas ! ((y * ?w + x) * 4 + c))" if "c < 4" for c
    using pixel_in_canvas[OF assms that] pixel_index[OF assms(1) that, of y]
    by (simp add: drawImage_def Let_def)
  have n0: "?d ! ((y * ?w + x) * 4) =
      (if ?in then channel ?p 0 else img_data canvas ! ((y * ?w + x) * 4))"
    using nth[of 0] by simp
  have n1: "?d ! ((y * ?w + x) * 4 + 1) =
      (if ?in then channel ?p 1 else img_data canvas ! ((y * ?w + x) * 4 + 1))"
    using nth[of 1] by simp
  have n2: "?d ! ((y * ?w + x) * 4 + 2) =
      (if ?in then channel ?p 2 else img_data canvas ! ((y * ?w + x) * 4 + 2))"
    using nth[of 2] by simp
  have n3: "?d ! ((y * ?w + x) * 4 + 3) =
      (if ?in then channel ?p 3 else img_data canvas ! ((y * ?w + x) * 4 + 3))"
    using nth[of 3] by simp
  have L: "pixelAt (drawImage blend canvas source dx dy) x y =
      (?d ! ((y * ?w + x) * 4), ?d ! ((y * ?w + x) * 4 + 1), ?d ! ((y * ?w + x) * 4 + 2),
       ?d ! ((y * ?w + x) * 4 + 3))"
    by (simp add: pixelAt_def Let_def drawImage_def)
  have R: "pixelAt canvas x y =
      (img_data canvas ! ((y * ?w + x) * 4), img_data canvas ! ((y * ?w + x) * 4 + 1),
       img_data canvas ! ((y * ?w + x) * 4 + 2), img_data canvas ! ((y * ?w + x) * 4 + 3))"
    by (simp add: pixelAt_def Let_def)
  show ?thesis
  proof (cases ?in)
    case True
    show ?thesis by (simp only: L n0 n1 n2 n3 if_P[OF True] channels_rgba)
  next
    case False
    show ?thesis by (simp only: L n0 n1 n2 n3 R if_not_P[OF False])
  qed
qed


subsection \<open>One step of the compositor\<close>

definition patchImage :: "RawFrame \<Rightarrow> ImageData" where
  "patchImage frame =
     \<lparr> img_data = patch frame, img_width = dims_width frame, img_height = dims_height frame \<rparr>"

definition pixelFrame :: "nat \<Rightarrow> nat \<Rightarrow> nat \<Rightarrow> byte list \<Rightarrow> RawFrame" where
  "pixelFrame l t d p = \<lparr> dims_left = l, dims_top = t, dims_width = 1, dims_height = 1,
     patch = p, disposalType = d \<rparr>"

lemma composeFrame_eq:
  assumes "length (patch frame) = 4 * dims_width frame * dims_height frame"
    and "0 < dims_width frame" "0 < dims_height frame"
    and "0 < img_width ctx" "0 < img_height ctx"
  shows "composeFrame blend (ctx, frames) frame =
     (let ctx1 = drawImage blend ctx (patchImage frame) (dims_left frame) (dims_top frame)
      in Inr (if disposalType frame = 2
              then clearRect ctx1 (dims_left frame) (dims_top frame)
                     (dims_width frame) (dims_height frame)
              else if disposalType frame = 3 then putImageData ctx1 ctx
              else ctx1,
              frames @ [ctx1]))"
proof -
  have n: "new_ImageData (patch frame) (dims_width frame) (dims_height frame) =
      Inr (patchImage frame)"
    using assms(1-3) by (simp add: new_ImageData_def patchImage_def)
  have p: "putImageData (blankCanvas (dims_width frame) (dims_height frame)) (patchImage frame) =
      patchImage frame"
    using n by (rule putImageData_blank)
  have g: "getImageData ctx = Inr ctx"
    "getImageData (drawImage blend ctx (patchImage frame) (dims_left frame) (dims_top frame)) =
       Inr (drawImage blend ctx (patchImage frame) (dims_left frame) (dims_top frame))"
    using assms(4,5) by (simp_all add: getImageData_def drawImage_def)
  show ?thesis
    by (simp add: composeFrame_def n p g Let_def)
qed

text \<open>
  Claim C5 (amended). For every frame with a well-formed patch, the blit draws the patch
  onto the running canvas with source-over compositing: in the emitted frame, a pixel
  inside the rectangle (and the canvas) whose patch pixel has alpha 255 equals the patch
  pixel, and one whose patch pixel has alpha 0 keeps the previous canvas content.
\<close>

theorem composeFrame_blit:
  assumes "length (patch frame) = 4 * dims_width frame * dims_height frame"
    and "0 < dims_width frame" "0 < dims_height frame"
    and "dims_left frame \<le> x" "x < dims_left frame + dims_width frame" "x < img_width ctx"
    and "dims_top frame \<le> y" "y < dims_top frame + dims_height frame" "y < img_height ctx"
  shows "\<exists>ctx' frameImage.
     composeFrame blend (ctx, frames) frame = Inr (ctx', frames @ [frameImage]) \<and>
     (let p = pixelAt (patchImage frame) (x - dims_left frame) (y - dims_top frame)
      in (alpha p = 255 \<longrightarrow> pixelAt frameImage x y = p) \<and>
         (alpha p = 0 \<longrightarrow> pixelAt frameImage x y = pixelAt ctx x y))"
proof -
  let ?ctx1 = "drawImage blend ctx (patchImage frame) (dims_left frame) (dims_top frame)"
  let ?p = "pixelAt (patchImage frame) (x - dims_left frame) (y - dims_top frame)"
  have w: "0 < img_width ctx" "0 < img_height ctx" using assms(6,9) by simp_all
  have "pixelAt ?ctx1 x y = sourceOver blend ?p (pixelAt ctx x y)"
    using pixelAt_drawImage[OF assms(6,9), of blend "patchImage frame" "dims_left frame"
        "dims_top frame"] assms(4,5,7,8)
    by (simp add: patchImage_def)
  then have "(alpha ?p = 255 \<longrightarrow> pixelAt ?ctx1 x y = ?p) \<and>
      (alpha ?p = 0 \<longrightarrow> pixelAt ?ctx1 x y = pixelAt ctx x y)"
    by (simp add: sourceOver_def)
  then show ?thesis
    unfolding composeFrame_eq[OF assms(1-3) w] Let_def by blast
qed

theorem composeFrame_blit_witness:
  "map_sum id (\<lambda>s. pixelAt (last (snd s)) 1 0)
     (composeFrame (\<lambda>s d. s) (blankCanvas 2 1, []) (pixelFrame 1 0 1 [0, 255, 0, 255])) =
     Inr (0, 255, 0, 255)"
proof -
  let ?f = "pixelFrame 1 0 1 [0, 255, 0, 255]"
  have p: "pixelAt (patchImage ?f) (1 - dims_left ?f) (0 - dims_top ?f) = (0, 255, 0, 255)"
    by (simp add: patchImage_def pixelFrame_def pixelAt_def Let_def)
  from composeFrame_blit[of ?f 1 "blankCanvas 2 1" 0 "\<lambda>s d. s" "[]"]
  obtain ctx' frameImage where
    c: "composeFrame (\<lambda>s d. s) (blankCanvas 2 1, []) ?f = Inr (ctx', [] @ [frameImage])"
    and a: "alpha (0, 255, 0, 255) = 255 \<longrightarrow> pixelAt frameImage 1 0 = (0, 255, 0, 255)"
    unfolding p Let_def by (auto simp: pixelFrame_def blankCanvas_def)
  have "alpha (0, 255, 0, 255) = 255" by (simp add: alpha_def channel_def)
  with a c show ?thesis by simp
qed

text \<open>
  The claim as stated, overwriting regardless of alpha, fails on a transparent patch
  pixel drawn over an opaque red canvas pixel: the emitted second frame is still red.
\<close>

theorem composeFrame_blit_counterexample:
  "extractComposedFrames (\<lambda>s d. s)
     [pixelFrame 0 0 1 [255, 0, 0, 255], pixelFrame 0 0 1 [0, 0, 0, 0]] 1 1 =
     Inr [\<lparr> img_data = [255, 0, 0, 255], img_width = 1, img_height = 1 \<rparr>,
          \<lparr> img_data = [255, 0, 0, 255], img_width = 1, img_height = 1 \<rparr>] \<and>
   pixelAt \<lparr> img_data = [255, 0, 0, 255], img_width = 1, img_height = 1 \<rparr> 0 0 \<noteq>
   pixelAt (patchImage (pixelFrame 0 0 1 [0, 0, 0, 0])) 0 0"
proof -
  have "extractComposedFrames (\<lambda>s d. s)
     [pixelFrame 0 0 1 [255, 0, 0, 255], pixelFrame 0 0 1 [0, 0, 0, 0]] 1 1 =
     Inr [\<lparr> img_data = [255, 0, 0, 255], img_width = 1, img_height = 1 \<rparr>,
          \<lparr> img_data = [255, 0, 0, 255], img_width = 1, img_height = 1 \<rparr>]"
    by code_simp
  then show ?thesis by (simp add: pixelAt_def patchImage_def pixelFrame_def Let_def)
qed


subsection \<open>Restore to previous\<close>

lemma putImageData_restore:
  assumes "length (img_data ctx) = 4 * img_width ctx * img_height ctx"
  shows "putImageData (drawImage blend ctx source dx dy) ctx = ctx"
proof -
  have "img_data (putImageData (drawImage blend ctx source dx dy) ctx) = img_data ctx"
    using assms by (intro putImageData_same) (simp_all add: drawImage_def)
  then show ?thesis by (simp add: putImageData_def drawImage_def)
qed

text \<open>
  Claim C6 (amended). A frame whose disposal is restore-to-previous leaves the canvas, after
  it has been emitted, exactly as it was before the frame was drawn; the first frame is
  no exception: its snapshot is the blank initial canvas, so the canvas handed to
  frame 2 is the blank canvas, without the patch of frame 1.
\<close>

theorem composeFrame_restore_previous:
  assumes "length (patch frame) = 4 * dims_width frame * dims_height frame"
    and "0 < dims_width frame" "0 < dims_height frame"
    and "disposalType frame = 3"
    and "0 < gifWidth" "0 < gifHeight"
    and "length (img_data ctx) = 4 * img_width ctx * img_height ctx"
    and "0 < img_width ctx" "0 < img_height ctx"
  shows "composeFrame blend (ctx, frames) frame =
       Inr (ctx, frames @ [drawImage blend ctx (patchImage frame) (dims_left frame) (dims_top frame)]) \<and>
     composeFrames blend (frame # rawFrames) (blankCanvas gifWidth gifHeight, []) =
       composeFrames blend rawFrames
         (blankCanvas gifWidth gifHeight,
          [drawImage blend (blankCanvas gifWidth gifHeight) (patchImage frame)
             (dims_left frame) (dims_top frame)])"
proof -
  have a: "composeFrame blend (c, fs) frame =
       Inr (c, fs @ [drawImage blend c (patchImage frame) (dims_left frame) (dims_top frame)])"
    if "length (img_data c) = 4 * img_width c * img_height c" "0 < img_width c" "0 < img_height c"
    for c fs
    unfolding composeFrame_eq[OF assms(1-3) that(2,3)] Let_def
    using assms(4) putImageData_restore[OF that(1)] by simp
  have b: "length (img_data (blankCanvas gifWidth gifHeight)) =
      4 * img_width (blankCanvas gifWidth gifHeight) * img_height (blankCanvas gifWidth gifHeight)"
    "0 < img_width (blankCanvas gifWidth gifHeight)" "0 < img_height (blankCanvas gifWidth gifHeight)"
    using assms(5,6) by (simp_all add: blankCanvas_def)
  show ?thesis using a[OF assms(7-9), of frames] a[OF b, of "[]"] by simp
qed

theorem composeFrame_restore_previous_witness:
  "composeFrame (\<lambda>s d. s) (blankCanvas 2 1, []) (pixelFrame 0 0 3 [255, 0, 0, 255]) =
     Inr (blankCanvas 2 1,
          [\<lparr> img_data = [255, 0, 0, 255, 0, 0, 0, 0], img_width = 2, img_height = 1 \<rparr>])"
proof -
  let ?f = "pixelFrame 0 0 3 [255, 0, 0, 255]"
  have d: "drawImage (\<lambda>s d. s) (blankCanvas 2 1) (patchImage ?f) (dims_left ?f) (dims_top ?f) =
      \<lparr> img_data = [255, 0, 0, 255, 0, 0, 0, 0], img_width = 2, img_height = 1 \<rparr>"
    by code_simp
  from composeFrame_restore_previous[of ?f 2 1 "blankCanvas 2 1" "\<lambda>s d. s" "[]" "[]",
      THEN conjunct1]
  show ?thesis unfolding d by (simp add: pixelFrame_def blankCanvas_def)
qed

text \<open>
  The claim as stated, the patch of frame 1 still on the canvas for frame 2, fails: a red
  first frame with disposal 3 at \<open>(0, 0)\<close> and a green second frame at \<open>(1, 0)\<close> give a
  second bitmap whose pixel \<open>(0, 0)\<close> is transparent black.
\<close>

theorem composeFrame_restore_previous_counterexample:
  "extractComposedFrames (\<lambda>s d. s)
     [pixelFrame 0 0 3 [255, 0, 0, 255], pixelFrame 1 0 1 [0, 255, 0, 255]] 2 1 =
     Inr [\<lparr> img_data = [255, 0, 0, 255, 0, 0, 0, 0], img_width = 2, img_height = 1 \<rparr>,
          \<lparr> img_data = [0, 0, 0, 0, 0, 255, 0, 255], img_width = 2, img_height = 1 \<rparr>] \<and>
   pixelAt \<lparr> img_data = [0, 0, 0, 0, 0, 255, 0, 255], img_width = 2, img_height = 1 \<rparr> 0 0 \<noteq>
   pixelAt (patchImage (pixelFrame 0 0 3 [255, 0, 0, 255])) 0 0"
proof -
  have "extractComposedFrames (\<lambda>s d. s)
     [pixelFrame 0 0 3 [255, 0, 0, 255], pixelFrame 1 0 1 [0, 255, 0, 255]] 2 1 =
     Inr [\<lparr> img_data = [255, 0, 0, 255, 0, 0, 0, 0], img_width = 2, img_height = 1 \<rparr>,
          \<lparr> img_data = [0, 0, 0, 0, 0, 255, 0, 255], img_width = 2, img_height = 1 \<rparr>]"
    by code_simp
  then show ?thesis by (simp add: pixelAt_def patchImage_def pixelFrame_def Let_def)
qed


section \<open>\<open>processFrame\<close> on an explicit store\<close>

text \<open>
  To speak about which arrays \<open>processFrame\<close> writes, the typed arrays live in a store:
  an address is an index into the list of all arrays allocated so far, and \<open>new\<close>
  appends one. An \<open>ImageData\<close> object holds the address of its \<open>data\<close>;
  \<open>new ImageData(targetData, width, height)\<close> keeps the array it is given.
\<close>

datatype 'n arr = U8 "byte list" | F32 "'n list"

type_synonym 'n store = "'n arr list"

definition alloc :: "'n store \<Rightarrow> 'n arr \<Rightarrow> nat \<times> 'n store" where
  "alloc st a = (length st, st @ [a])"

definition u8 :: "'n store \<Rightarrow> nat \<Rightarrow> byte list" where
  "u8 st a = (if a < length st then (case st ! a of U8 xs \<Rightarrow> xs | F32 _ \<Rightarrow> []) else [])"

definition f32 :: "'n store \<Rightarrow> nat \<Rightarrow> 'n list" where
  "f32 st a = (if a < length st then (case st ! a of F32 xs \<Rightarrow> xs | U8 _ \<Rightarrow> []) else [])"

record ImageRef =
  ref_data :: nat
  ref_width :: nat
  ref_height :: nat

record ResultRef =
  pixels_ref :: nat
  preview_ref :: ImageRef

text \<open>
  The loops of \<open>processFrame\<close>, each iteration reading the arrays it needs from the
  current store and writing the array it updates back at its address. The bodies are
  those of the model above.
\<close>

definition sampleLoop_st ::
  "'n arith \<Rightarrow> nat \<Rightarrow> nat \<Rightarrow> nat \<Rightarrow> nat \<Rightarrow> nat \<Rightarrow> 'n \<times> 'n \<times> 'n \<times> 'n \<Rightarrow> nat \<Rightarrow>
   'n store \<Rightarrow> 'n store" where
  "sampleLoop_st ar sourceData sw sh width height p targetData st =
     fold (\<lambda>y. fold (\<lambda>x st.
         st[targetData := U8 (samplePixel ar (u8 st sourceData) sw sh width p x y
                                (u8 st targetData))])
       [0..<width]) [0..<height] st"

definition grayscaleLoop_st :: "'n arith \<Rightarrow> nat \<Rightarrow> nat \<Rightarrow> nat \<Rightarrow> nat \<Rightarrow> 'n store \<Rightarrow> 'n store" where
  "grayscaleLoop_st ar width height targetData grayBuffer st =
     fold (\<lambda>i st.
        (let r = rd (u8 st targetData) (i * 4);
             g = rd (u8 st targetData) (i * 4 + 1);
             b = rd (u8 st targetData) (i * 4 + 2)
         in st[grayBuffer := F32 ((f32 st grayBuffer)[i := n_fround ar (luminance ar r g b)])]))
       [0..<width * height] st"

definition invertLoop_st :: "'n arith \<Rightarrow> nat \<Rightarrow> nat \<Rightarrow> nat \<Rightarrow> 'n store \<Rightarrow> 'n store" where
  "invertLoop_st ar width height grayBuffer st =
     fold (\<lambda>i st. st[grayBuffer :=
         F32 ((f32 st grayBuffer)[i := n_fround ar (n_sub ar (n_num ar 255) (f32 st grayBuffer ! i))])])
       [0..<width * height] st"

definition ditherLoop_st ::
  "'n arith \<Rightarrow> nat \<Rightarrow> nat \<Rightarrow> 'n \<Rightarrow> nat \<Rightarrow> nat \<Rightarrow> nat \<Rightarrow> 'n store \<Rightarrow> 'n store" where
  "ditherLoop_st ar width height threshold grayBuffer targetData ssd1306Buffer st =
     fold (\<lambda>y. fold (\<lambda>x st.
         (case ditherPixel ar width height threshold x y
                 (f32 st grayBuffer, u8 st targetData, u8 st ssd1306Buffer) of
            (gb, td, ssd) \<Rightarrow>
              st[grayBuffer := F32 gb, targetData := U8 td, ssd1306Buffer := U8 ssd]))
       [0..<width]) [0..<height] st"

definition thresholdLoop_st ::
  "'n arith \<Rightarrow> nat \<Rightarrow> nat \<Rightarrow> 'n \<Rightarrow> bool \<Rightarrow> nat \<Rightarrow> nat \<Rightarrow> nat \<Rightarrow> 'n store \<Rightarrow> 'n store" where
  "thresholdLoop_st ar width height threshold invert grayBuffer targetData ssd1306Buffer st =
     fold (\<lambda>y. fold (\<lambda>x st.
         (case thresholdPixel ar width threshold invert (f32 st grayBuffer) x y
                 (u8 st targetData, u8 st ssd1306Buffer) of
            (td, ssd) \<Rightarrow> st[targetData := U8 td, ssd1306Buffer := U8 ssd]))
       [0..<width]) [0..<height] st"

text \<open>
  \<open>processFrame\<close> itself. The store is returned with the outcome, so that what the call
  has written is known also when \<open>new ImageData\<close> raises at the end.
\<close>

definition processFrame_st ::
  "'n arith \<Rightarrow> 'n store \<Rightarrow> ImageRef \<Rightarrow> 'n ProcessingOptions \<Rightarrow> (js_error + ResultRef) \<times> 'n store" where
  "processFrame_st ar st0 frameImageData options =
     (let width = opt_width options; height = opt_height options;
          threshold = opt_threshold options; invert = opt_invert options;
          dither = opt_dither options; fit = opt_fit options;
          (targetData, st) = alloc st0 (U8 (replicate (width * height * 4) 0));
          sourceData = ref_data frameImageData;
          sw = ref_width frameImageData;
          sh = ref_height frameImageData;
          st = sampleLoop_st ar sourceData sw sh width height
                 (fitParams ar fit width height sw sh) targetData st;
          (monoPixels, st) = alloc st (U8 (replicate ((width * height + 7) div 8) 0));
          (ssd1306Buffer, st) = alloc st (U8 (replicate ((width * height) div 8) 0));
          (grayBuffer, st) = alloc st (F32 (replicate (width * height) (n_num ar 0)));
          st = grayscaleLoop_st ar width height targetData grayBuffer st;
          st = (if dither then
                  (let st = (if invert then invertLoop_st ar width height grayBuffer st else st);
                       st = st[ssd1306Buffer := U8 (map (\<lambda>_. 0) (u8 st ssd1306Buffer))]
                   in ditherLoop_st ar width height threshold grayBuffer targetData
                        ssd1306Buffer st)
                else thresholdLoop_st ar width height threshold invert grayBuffer targetData
                       ssd1306Buffer st)
      in (if width = 0 \<or> height = 0 \<or> length (u8 st targetData) \<noteq> 4 * width * height
          then Inl IndexSizeError
          else Inr \<lparr> pixels_ref = ssd1306Buffer,
                     preview_ref = \<lparr> ref_data = targetData, ref_width = width,
                                     ref_height = height \<rparr> \<rparr>,
          st))"


subsection \<open>Which arrays the loops write\<close>

definition writes_only :: "nat set \<Rightarrow> 'n store \<Rightarrow> 'n store \<Rightarrow> bool" where
  "writes_only W st st' \<longleftrightarrow>
     length st' = length st \<and> (\<forall>a. a \<notin> W \<longrightarrow> a < length st \<longrightarrow> st' ! a = st ! a)"

lemma writes_only_refl [simp]: "writes_only W st st"
  by (simp add: writes_only_def)

lemma writes_only_trans:
  "writes_only W st st' \<Longrightarrow> writes_only W st' st'' \<Longrightarrow> writes_only W st st''"
  by (simp add: writes_only_def)

lemma writes_only_mono: "writes_only W st st' \<Longrightarrow> W \<subseteq> W' \<Longrightarrow> writes_only W' st st'"
  by (auto simp: writes_only_def)

lemma writes_only_update:
  assumes "a \<in> W"
  shows "writes_only W st (st[a := v])"
  unfolding writes_only_def
proof (intro conjI allI impI)
  show "length (st[a := v]) = length st" by simp
next
  fix b assume "b \<notin> W"
  then have "a \<noteq> b" using assms by auto
  then show "st[a := v] ! b = st ! b" by simp
qed

lemma writes_only_fold:
  assumes "\<And>x t. writes_only W t (f x t)"
  shows "writes_only W st (fold f xs st)"
  by (rule fold_preserves[where P = "writes_only W st"])
     (use assms writes_only_trans in blast, simp)

lemma writes_only_fold2:
  assumes "\<And>x y t. writes_only W t (f x y t)"
  shows "writes_only W st (fold (\<lambda>y. fold (\<lambda>x. f x y) xs) ys st)"
  by (rule writes_only_fold, rule writes_only_fold, rule assms)

lemma sampleLoop_st_writes:
  "writes_only {targetData} st
     (sampleLoop_st ar sourceData sw sh width height p targetData st)"
  unfolding sampleLoop_st_def
  by (rule writes_only_fold2) (simp add: writes_only_update)

lemma grayscaleLoop_st_writes:
  "writes_only {grayBuffer} st (grayscaleLoop_st ar width height targetData grayBuffer st)"
  unfolding grayscaleLoop_st_def
  by (rule writes_only_fold) (simp add: writes_only_update Let_def)

lemma invertLoop_st_writes:
  "writes_only {grayBuffer} st (invertLoop_st ar width height grayBuffer st)"
  unfolding invertLoop_st_def
  by (rule writes_only_fold) (simp add: writes_only_update)

lemma writes_only_update3:
  "a \<in> W \<Longrightarrow> b \<in> W \<Longrightarrow> c \<in> W \<Longrightarrow> writes_only W st (st[a := u, b := v, c := w])"
  by (blast intro: writes_only_trans writes_only_update)

lemma writes_only_update2:
  "a \<in> W \<Longrightarrow> b \<in> W \<Longrightarrow> writes_only W st (st[a := u, b := v])"
  by (blast intro: writes_only_trans writes_only_update)

lemma ditherLoop_st_writes:
  "writes_only {grayBuffer, targetData, ssd1306Buffer} st
     (ditherLoop_st ar width height threshold grayBuffer targetData ssd1306Buffer st)"
  unfolding ditherLoop_st_def
  by (rule writes_only_fold2) (simp add: writes_only_update3 split: prod.split)

lemma thresholdLoop_st_writes:
  "writes_only {targetData, ssd1306Buffer} st
     (thresholdLoop_st ar width height threshold invert grayBuffer targetData ssd1306Buffer st)"
  unfolding thresholdLoop_st_def
  by (rule writes_only_fold2) (simp add: writes_only_update2 split: prod.split)


subsection \<open>The store loops compute what the loops of the model compute\<close>

lemma u8_update_same [simp]: "a < length st \<Longrightarrow> u8 (st[a := U8 xs]) a = xs"
  by (simp add: u8_def)

lemma u8_update_other [simp]: "a \<noteq> b \<Longrightarrow> u8 (st[a := v]) b = u8 st b"
  by (simp add: u8_def)

lemma f32_update_same [simp]: "a < length st \<Longrightarrow> f32 (st[a := F32 xs]) a = xs"
  by (simp add: f32_def)

lemma f32_update_other [simp]: "a \<noteq> b \<Longrightarrow> f32 (st[a := v]) b = f32 st b"
  by (simp add: f32_def)

lemma fold_simulation:
  assumes "I st"
    and "\<And>x t. I t \<Longrightarrow> I (F x t) \<and> view (F x t) = f x (view t)"
  shows "I (fold F xs st) \<and> view (fold F xs st) = fold f xs (view st)"
  using assms(1)
proof (induction xs arbitrary: st)
  case Nil
  then show ?case by simp
next
  case (Cons x xs)
  from assms(2)[OF Cons.prems] have "I (F x st)" "view (F x st) = f x (view st)" by simp_all
  with Cons.IH[of "F x st"] show ?case by simp
qed

lemma sampleLoop_st_sim:
  assumes "targetData < length st" "sourceData \<noteq> targetData"
  shows "u8 (sampleLoop_st ar sourceData sw sh width height p targetData st) targetData =
     sampleLoop ar (u8 st sourceData) sw sh width height p (u8 st targetData)"
proof -
  let ?I = "\<lambda>t. length t = length st \<and> u8 t sourceData = u8 st sourceData"
  let ?abs = "\<lambda>t. u8 t targetData"
  let ?F = "\<lambda>y x t. t[targetData := U8 (samplePixel ar (u8 t sourceData) sw sh width p x y
                                (u8 t targetData))]"
  let ?f = "\<lambda>y x. samplePixel ar (u8 st sourceData) sw sh width p x y"
  have inner: "?I (fold (?F y) [0..<width] t) \<and>
      ?abs (fold (?F y) [0..<width] t) = fold (?f y) [0..<width] (?abs t)" if "?I t" for y t
    by (rule fold_simulation[where I = ?I and view = ?abs, OF that]) (use assms in simp)
  have "?I (fold (\<lambda>y. fold (?F y) [0..<width]) [0..<height] st) \<and>
      ?abs (fold (\<lambda>y. fold (?F y) [0..<width]) [0..<height] st) =
      fold (\<lambda>y. fold (?f y) [0..<width]) [0..<height] (?abs st)"
    by (rule fold_simulation[where I = ?I and view = ?abs]) (use inner in simp_all)
  then show ?thesis by (simp add: sampleLoop_st_def sampleLoop_def)
qed

lemma grayscaleLoop_st_sim:
  assumes "grayBuffer < length st" "targetData \<noteq> grayBuffer"
  shows "f32 (grayscaleLoop_st ar width height targetData grayBuffer st) grayBuffer =
     grayscaleLoop ar width height (u8 st targetData) (f32 st grayBuffer)"
proof -
  let ?I = "\<lambda>t. length t = length st \<and> u8 t targetData = u8 st targetData"
  let ?abs = "\<lambda>t. f32 t grayBuffer"
  have "?I (grayscaleLoop_st ar width height targetData grayBuffer st) \<and>
      ?abs (grayscaleLoop_st ar width height targetData grayBuffer st) =
      grayscaleLoop ar width height (u8 st targetData) (?abs st)"
    unfolding grayscaleLoop_st_def grayscaleLoop_def
    by (rule fold_simulation[where I = ?I and view = ?abs]) (use assms in \<open>simp_all add: Let_def\<close>)
  then show ?thesis by simp
qed

lemma invertLoop_st_sim:
  assumes "grayBuffer < length st"
  shows "f32 (invertLoop_st ar width height grayBuffer st) grayBuffer =
     invertLoop ar width height (f32 st grayBuffer)"
proof -
  let ?I = "\<lambda>t :: 'a arr list. length t = length st"
  let ?abs = "\<lambda>t. f32 t grayBuffer"
  have "?I (invertLoop_st ar width height grayBuffer st) \<and>
      ?abs (invertLoop_st ar width height grayBuffer st) =
      invertLoop ar width height (?abs st)"
    unfolding invertLoop_st_def invertLoop_def
    by (rule fold_simulation[where I = ?I and view = ?abs]) (use assms in simp_all)
  then show ?thesis by simp
qed


lemma ditherLoop_st_sim:
  assumes "grayBuffer < length st" "targetData < length st" "ssd1306Buffer < length st"
    and "grayBuffer \<noteq> targetData" "grayBuffer \<noteq> ssd1306Buffer" "targetData \<noteq> ssd1306Buffer"
  shows "(f32 (ditherLoop_st ar width height threshold grayBuffer targetData ssd1306Buffer st)
            grayBuffer,
          u8 (ditherLoop_st ar width height threshold grayBuffer targetData ssd1306Buffer st)
            targetData,
          u8 (ditherLoop_st ar width height threshold grayBuffer targetData ssd1306Buffer st)
            ssd1306Buffer) =
     ditherLoop ar width height threshold
       (f32 st grayBuffer, u8 st targetData, u8 st ssd1306Buffer)"
proof -
  let ?I = "\<lambda>t :: 'a arr list. length t = length st"
  let ?abs = "\<lambda>t. (f32 t grayBuffer, u8 t targetData, u8 t ssd1306Buffer)"
  let ?F = "\<lambda>y x t. (case ditherPixel ar width height threshold x y
                 (f32 t grayBuffer, u8 t targetData, u8 t ssd1306Buffer) of
            (gb, td, ssd) \<Rightarrow>
              t[grayBuffer := F32 gb, targetData := U8 td, ssd1306Buffer := U8 ssd])"
  let ?f = "\<lambda>y x. ditherPixel ar width height threshold x y"
  have step: "?I (?F y x t) \<and> ?abs (?F y x t) = ?f y x (?abs t)" if "?I t" for y x t
    using that assms by (simp split: prod.split)
  have inner: "?I (fold (?F y) [0..<width] t) \<and>
      ?abs (fold (?F y) [0..<width] t) = fold (?f y) [0..<width] (?abs t)" if "?I t" for y t
    by (rule fold_simulation[where I = ?I and view = ?abs, OF that]) (rule step)
  have "?I (fold (\<lambda>y. fold (?F y) [0..<width]) [0..<height] st) \<and>
      ?abs (fold (\<lambda>y. fold (?F y) [0..<width]) [0..<height] st) =
      fold (\<lambda>y. fold (?f y) [0..<width]) [0..<height] (?abs st)"
    by (rule fold_simulation[where I = ?I and view = ?abs]) (use inner in simp_all)
  then show ?thesis by (simp add: ditherLoop_st_def ditherLoop_def)
qed

lemma thresholdLoop_st_sim:
  assumes "targetData < length st" "ssd1306Buffer < length st"
    and "grayBuffer \<noteq> targetData" "grayBuffer \<noteq> ssd1306Buffer" "targetData \<noteq> ssd1306Buffer"
  shows "(u8 (thresholdLoop_st ar width height threshold invert grayBuffer targetData
                ssd1306Buffer st) targetData,
          u8 (thresholdLoop_st ar width height threshold invert grayBuffer targetData
                ssd1306Buffer st) ssd1306Buffer) =
     thresholdLoop ar width height threshold invert (f32 st grayBuffer)
       (u8 st targetData, u8 st ssd1306Buffer)"
proof -
  let ?I = "\<lambda>t. length t = length st \<and> f32 t grayBuffer = f32 st grayBuffer"
  let ?abs = "\<lambda>t. (u8 t targetData, u8 t ssd1306Buffer)"
  let ?F = "\<lambda>y x t. (case thresholdPixel ar width threshold invert (f32 t grayBuffer) x y
                 (u8 t targetData, u8 t ssd1306Buffer) of
            (td, ssd) \<Rightarrow> t[targetData := U8 td, ssd1306Buffer := U8 ssd])"
  let ?f = "\<lambda>y x. thresholdPixel ar width threshold invert (f32 st grayBuffer) x y"
  have step: "?I (?F y x t) \<and> ?abs (?F y x t) = ?f y x (?abs t)" if "?I t" for y x t
    using that assms by (simp split: prod.split)
  have inner: "?I (fold (?F y) [0..<width] t) \<and>
      ?abs (fold (?F y) [0..<width] t) = fold (?f y) [0..<width] (?abs t)" if "?I t" for y t
    by (rule fold_simulation[where I = ?I and view = ?abs, OF that]) (rule step)
  have "?I (fold (\<lambda>y. fold (?F y) [0..<width]) [0..<height] st) \<and>
      ?abs (fold (\<lambda>y. fold (?F y) [0..<width]) [0..<height] st) =
      fold (\<lambda>y. fold (?f y) [0..<width]) [0..<height] (?abs st)"
    by (rule fold_simulation[where I = ?I and view = ?abs]) (use inner in simp_all)
  then show ?thesis by (simp add: thresholdLoop_st_def thresholdLoop_def)
qed

lemma writes_only_u8: "writes_only W st st' \<Longrightarrow> b \<notin> W \<Longrightarrow> u8 st' b = u8 st b"
  by (simp add: writes_only_def u8_def)

lemma writes_only_f32: "writes_only W st st' \<Longrightarrow> b \<notin> W \<Longrightarrow> f32 st' b = f32 st b"
  by (simp add: writes_only_def f32_def)

lemma writes_only_length: "writes_only W st st' \<Longrightarrow> length st' = length st"
  by (simp add: writes_only_def)

lemma writes_only_nth: "writes_only W st st' \<Longrightarrow> a \<notin> W \<Longrightarrow> a < length st \<Longrightarrow> st' ! a = st ! a"
  by (simp add: writes_only_def)

lemma u8_append [simp]:
  "a < length st \<Longrightarrow> u8 (st @ [x]) a = u8 st a"
  "u8 (st @ [U8 xs]) (length st) = xs"
  by (simp_all add: u8_def nth_append)

lemma f32_append [simp]:
  "a < length st \<Longrightarrow> f32 (st @ [x]) a = f32 st a"
  "f32 (st @ [F32 xs]) (length st) = xs"
  by (simp_all add: f32_def nth_append)


subsection \<open>The input bitmap is left unchanged\<close>

lemma processFrame_st_run:
  fixes ar :: "'n arith" and st0 :: "'n store"
  shows "\<exists>st'. processFrame_st ar st0 frameImageData options =
       (if opt_width options = 0 \<or> opt_height options = 0 \<or>
           length (u8 st' (length st0)) \<noteq> 4 * opt_width options * opt_height options
        then Inl IndexSizeError
        else Inr \<lparr> pixels_ref = length st0 + 2,
               preview_ref = \<lparr> ref_data = length st0, ref_width = opt_width options,
                               ref_height = opt_height options \<rparr> \<rparr>, st') \<and>
     length st' = length st0 + 4 \<and>
     (\<forall>a<length st0. st' ! a = st0 ! a) \<and>
     (ref_data frameImageData < length st0 \<longrightarrow>
      (u8 st' (length st0), u8 st' (length st0 + 2)) =
       quantize ar (opt_width options) (opt_height options) (opt_threshold options)
         (opt_invert options) (opt_dither options)
         (resample ar \<lparr> img_data = u8 st0 (ref_data frameImageData),
                         img_width = ref_width frameImageData,
                         img_height = ref_height frameImageData \<rparr>
            (opt_width options) (opt_height options) (opt_fit options)))"
proof -
  let ?W = "opt_width options" and ?H = "opt_height options"
  let ?th = "opt_threshold options" and ?inv = "opt_invert options"
  let ?dith = "opt_dither options"
  let ?n = "length st0"
  let ?s = "ref_data frameImageData"
  let ?sw = "ref_width frameImageData" and ?sh = "ref_height frameImageData"
  let ?p = "fitParams ar (opt_fit options) ?W ?H ?sw ?sh"
  define st1 where "st1 = st0 @ [U8 (replicate (?W * ?H * 4) 0)]"
  define st2 where "st2 = sampleLoop_st ar ?s ?sw ?sh ?W ?H ?p ?n st1"
  define st3 where "st3 = st2 @ [U8 (replicate ((?W * ?H + 7) div 8) 0)]"
  define st4 where "st4 = st3 @ [U8 (replicate ((?W * ?H) div 8) 0)]"
  define st5 where "st5 = st4 @ [F32 (replicate (?W * ?H) (n_num ar 0))]"
  define st6 where "st6 = grayscaleLoop_st ar ?W ?H ?n (?n + 3) st5"
  define st6i where "st6i = (if ?inv then invertLoop_st ar ?W ?H (?n + 3) st6 else st6)"
  define st6f where "st6f = st6i[?n + 2 := U8 (map (\<lambda>_. 0) (u8 st6i (?n + 2)))]"
  define st7 where "st7 = (if ?dith
      then ditherLoop_st ar ?W ?H ?th (?n + 3) ?n (?n + 2) st6f
      else thresholdLoop_st ar ?W ?H ?th ?inv (?n + 3) ?n (?n + 2) st6)"
  define td where "td = resample ar \<lparr> img_data = u8 st0 ?s, img_width = ?sw, img_height = ?sh \<rparr>
            ?W ?H (opt_fit options)"
  define gb where "gb = grayscaleLoop ar ?W ?H (u8 st2 ?n) (replicate (?W * ?H) (n_num ar 0))"

  have l1: "length st1 = ?n + 1" by (simp add: st1_def)
  have w2: "writes_only {?n} st1 st2" unfolding st2_def by (rule sampleLoop_st_writes)
  have l2: "length st2 = ?n + 1" using writes_only_length[OF w2] l1 by simp
  have u2: "u8 st2 ?n = td" if src: "?s < ?n"
    unfolding st2_def td_def resample_def Let_def
    using sampleLoop_st_sim[of ?n st1 ?s ar ?sw ?sh ?W ?H ?p] src l1
    by (simp add: st1_def)
  have k2: "st2 ! a = st0 ! a" if "a < ?n" for a
    using writes_only_nth[OF w2, of a] that l1 by (simp add: st1_def nth_append)

  have l5: "length st5 = ?n + 4" by (simp add: st5_def st4_def st3_def l2)
  have u5: "u8 st5 ?n = u8 st2 ?n" "u8 st5 (?n + 2) = replicate ((?W * ?H) div 8) 0"
    "f32 st5 (?n + 3) = replicate (?W * ?H) (n_num ar 0)"
    using l2 by (simp_all add: st5_def st4_def st3_def u8_def f32_def nth_append)
  have k5: "st5 ! a = st0 ! a" if "a < ?n" for a
    using k2[OF that] that l2 by (simp add: st5_def st4_def st3_def nth_append)

  have w6: "writes_only {?n + 3} st5 st6" unfolding st6_def by (rule grayscaleLoop_st_writes)
  have l6: "length st6 = ?n + 4" using writes_only_length[OF w6] l5 by simp
  have u6: "u8 st6 ?n = u8 st2 ?n" "u8 st6 (?n + 2) = replicate ((?W * ?H) div 8) 0"
    using writes_only_u8[OF w6, of ?n] writes_only_u8[OF w6, of "?n + 2"] u5 by simp_all
  have f6: "f32 st6 (?n + 3) = gb"
    unfolding st6_def gb_def
    using grayscaleLoop_st_sim[of "?n + 3" st5 ?n ar ?W ?H] l5 u5 by simp
  have k6: "st6 ! a = st0 ! a" if "a < ?n" for a
    using writes_only_nth[OF w6, of a] k5[OF that] that l5 by simp

  have w6i: "writes_only {?n + 3} st6 st6i"
    unfolding st6i_def by (simp add: invertLoop_st_writes)
  have l6i: "length st6i = ?n + 4" using writes_only_length[OF w6i] l6 by simp
  have u6i: "u8 st6i ?n = u8 st2 ?n" "u8 st6i (?n + 2) = replicate ((?W * ?H) div 8) 0"
    using writes_only_u8[OF w6i, of ?n] writes_only_u8[OF w6i, of "?n + 2"] u6 by simp_all
  have f6i: "f32 st6i (?n + 3) = (if ?inv then invertLoop ar ?W ?H gb else gb)"
    unfolding st6i_def using invertLoop_st_sim[of "?n + 3" st6 ar ?W ?H] l6 f6 by simp
  have k6i: "st6i ! a = st0 ! a" if "a < ?n" for a
    using writes_only_nth[OF w6i, of a] k6[OF that] that l6 by simp

  have l6f: "length st6f = ?n + 4" by (simp add: st6f_def l6i)
  have u6f: "u8 st6f ?n = u8 st2 ?n" "u8 st6f (?n + 2) = map (\<lambda>_. 0) (replicate ((?W * ?H) div 8) 0)"
    "f32 st6f (?n + 3) = (if ?inv then invertLoop ar ?W ?H gb else gb)"
    using u6i f6i l6i by (simp_all add: st6f_def)
  have k6f: "st6f ! a = st0 ! a" if "a < ?n" for a
    using k6i[OF that] that by (simp add: st6f_def)

  have w7: "writes_only {?n + 3, ?n, ?n + 2} (if ?dith then st6f else st6) st7"
    unfolding st7_def
    by (auto intro: ditherLoop_st_writes writes_only_mono[OF thresholdLoop_st_writes])
  have l7: "length st7 = ?n + 4" using writes_only_length[OF w7] l6 l6f by simp
  have k7: "st7 ! a = st0 ! a" if "a < ?n" for a
    using writes_only_nth[OF w7, of a] k6[OF that] k6f[OF that] that l6 l6f by simp
  have q: "(u8 st7 ?n, u8 st7 (?n + 2)) = quantize ar ?W ?H ?th ?inv ?dith (u8 st2 ?n)"
  proof (cases ?dith)
    case True
    have "(f32 st7 (?n + 3), u8 st7 ?n, u8 st7 (?n + 2)) =
        ditherLoop ar ?W ?H ?th (f32 st6f (?n + 3), u8 st6f ?n, u8 st6f (?n + 2))"
      unfolding st7_def using True l6f
      by (simp add: ditherLoop_st_sim)
    then have "(u8 st7 ?n, u8 st7 (?n + 2)) =
        snd (ditherLoop ar ?W ?H ?th (f32 st6f (?n + 3), u8 st6f ?n, u8 st6f (?n + 2)))"
      by (metis snd_conv)
    then show ?thesis
      using True u6f
      by (simp add: quantize_def ditherMode_def Let_def gb_def)
  next
    case False
    have "(u8 st7 ?n, u8 st7 (?n + 2)) =
        thresholdLoop ar ?W ?H ?th ?inv (f32 st6 (?n + 3)) (u8 st6 ?n, u8 st6 (?n + 2))"
      unfolding st7_def using False l6
      by (simp add: thresholdLoop_st_sim)
    then show ?thesis
      using False u6 f6 by (simp add: quantize_def Let_def gb_def)
  qed
  have a1: "alloc st0 (U8 (replicate (?W * ?H * 4) 0)) = (?n, st1)"
    by (simp add: alloc_def st1_def)
  have a2: "alloc st2 (U8 (replicate ((?W * ?H + 7) div 8) 0)) = (?n + 1, st3)"
    by (simp add: alloc_def st3_def l2)
  have a3: "alloc st3 (U8 (replicate ((?W * ?H) div 8) 0)) = (?n + 2, st4)"
    by (simp add: alloc_def st4_def st3_def l2)
  have a4: "alloc st4 (F32 (replicate (?W * ?H) (n_num ar 0))) = (?n + 3, st5)"
    by (simp add: alloc_def st5_def st4_def st3_def l2)
  have run: "processFrame_st ar st0 frameImageData options =
       (if ?W = 0 \<or> ?H = 0 \<or> length (u8 st7 ?n) \<noteq> 4 * ?W * ?H then Inl IndexSizeError
        else Inr \<lparr> pixels_ref = ?n + 2,
               preview_ref = \<lparr> ref_data = ?n, ref_width = ?W, ref_height = ?H \<rparr> \<rparr>, st7)"
    unfolding processFrame_st_def Let_def a1 prod.case st2_def[symmetric] a2 a3 a4
      st6_def[symmetric] st6i_def[symmetric] st6f_def[symmetric] st7_def[symmetric]
    by (rule refl)
  have "(u8 st7 ?n, u8 st7 (?n + 2)) = quantize ar ?W ?H ?th ?inv ?dith td" if "?s < ?n"
    using q u2[OF that] by simp
  then show ?thesis
    using run l7 k7 unfolding td_def by blast
qed

text \<open>
  Claim C10. \<open>processFrame\<close> leaves its input bitmap unchanged: whatever the store, the
  options and the image, its bytes an array of the store, every array that existed before
  the call, the source bytes among them, holds after the call what it held before, also
  when the call raises; and when the call returns, the packed buffer and the bytes of the
  preview are two different arrays allocated by the call, so neither is the source array.
\<close>

theorem processFrame_st_input_unchanged:
  fixes ar :: "'n arith" and st0 :: "'n store"
  assumes src: "ref_data frameImageData < length st0"
    and run: "processFrame_st ar st0 frameImageData options = (res, st')"
  shows "(\<forall>a<length st0. st' ! a = st0 ! a) \<and>
     u8 st' (ref_data frameImageData) = u8 st0 (ref_data frameImageData) \<and>
     (\<forall>r. res = Inr r \<longrightarrow>
        length st0 \<le> pixels_ref r \<and> pixels_ref r < length st' \<and>
        length st0 \<le> ref_data (preview_ref r) \<and> ref_data (preview_ref r) < length st' \<and>
        pixels_ref r \<noteq> ref_data (preview_ref r) \<and>
        pixels_ref r \<noteq> ref_data frameImageData \<and>
        ref_data (preview_ref r) \<noteq> ref_data frameImageData)"
proof -
  let ?n = "length st0"
  let ?W = "opt_width options" and ?H = "opt_height options"
  from processFrame_st_run[of ar st0 frameImageData options]
  obtain st'' where r: "processFrame_st ar st0 frameImageData options =
       (if ?W = 0 \<or> ?H = 0 \<or> length (u8 st'' ?n) \<noteq> 4 * ?W * ?H
        then Inl IndexSizeError
        else Inr \<lparr> pixels_ref = ?n + 2,
               preview_ref = \<lparr> ref_data = ?n, ref_width = ?W, ref_height = ?H \<rparr> \<rparr>, st'')"
    and l: "length st'' = ?n + 4" and k: "\<forall>a<?n. st'' ! a = st0 ! a"
    by blast
  have e: "st'' = st'" using r run by simp
  have res: "res = (if ?W = 0 \<or> ?H = 0 \<or> length (u8 st'' ?n) \<noteq> 4 * ?W * ?H
        then Inl IndexSizeError
        else Inr \<lparr> pixels_ref = ?n + 2,
               preview_ref = \<lparr> ref_data = ?n, ref_width = ?W, ref_height = ?H \<rparr> \<rparr>)"
    using r run by simp
  have u: "u8 st' (ref_data frameImageData) = u8 st0 (ref_data frameImageData)"
    using k l src unfolding e by (simp add: u8_def)
  have f: "length st0 \<le> pixels_ref r \<and> pixels_ref r < length st' \<and>
        length st0 \<le> ref_data (preview_ref r) \<and> ref_data (preview_ref r) < length st' \<and>
        pixels_ref r \<noteq> ref_data (preview_ref r) \<and>
        pixels_ref r \<noteq> ref_data frameImageData \<and>
        ref_data (preview_ref r) \<noteq> ref_data frameImageData" if "res = Inr r" for r
  proof -
    have "r = \<lparr> pixels_ref = ?n + 2,
               preview_ref = \<lparr> ref_data = ?n, ref_width = ?W, ref_height = ?H \<rparr> \<rparr>"
      using that res by (simp split: if_splits)
    then show ?thesis using l src unfolding e by simp
  qed
  show ?thesis using k u f unfolding e by blast
qed

definition store1 :: "rat store" where
  "store1 = [U8 [255, 255, 255, 255]]"

definition ref1 :: ImageRef where
  "ref1 = \<lparr> ref_data = 0, ref_width = 1, ref_height = 1 \<rparr>"

theorem processFrame_st_input_unchanged_witness:
  "processFrame_st exact_arith store1 ref1 (opts 1 8 False False Stretch) =
     (Inr \<lparr> pixels_ref = 3, preview_ref = \<lparr> ref_data = 1, ref_width = 1, ref_height = 8 \<rparr> \<rparr>,
      [U8 [255, 255, 255, 255], U8 (concat (replicate 8 [255, 255, 255, 255])), U8 [0],
       U8 [255], F32 (replicate 8 255)]) \<and>
   u8 [U8 [255, 255, 255, 255], U8 (concat (replicate 8 [255, 255, 255, 255])), U8 [0],
       U8 [255], F32 (replicate 8 (255 :: rat))] (ref_data ref1) = u8 store1 (ref_data ref1) \<and>
   length store1 \<le> 3 \<and> length store1 \<le> 1"
proof -
  let ?st = "[U8 [255, 255, 255, 255], U8 (concat (replicate 8 [255, 255, 255, 255])), U8 [0],
       U8 [255], F32 (replicate 8 (255 :: rat))]"
  let ?r = "\<lparr> pixels_ref = 3, preview_ref = \<lparr> ref_data = 1, ref_width = 1, ref_height = 8 \<rparr> \<rparr>"
  have e: "processFrame_st exact_arith store1 ref1 (opts 1 8 False False Stretch) = (Inr ?r, ?st)"
    unfolding processFrame_st_def Let_def alloc_def prod.case by code_simp
  have s: "ref_data ref1 < length store1" by (simp add: ref1_def store1_def)
  from processFrame_st_input_unchanged[OF s e]
  have "u8 ?st (ref_data ref1) = u8 store1 (ref_data ref1) \<and> length store1 \<le> 3 \<and> length store1 \<le> 1"
    by simp
  with e show ?thesis by blast
qed


end
